theory Spec2Isabelle
  imports Complex_Main
begin

section \<open>Data model of \<open>scripts/predictions2hints.py\<close>\<close>

text \<open>
  The script turns per-base class probabilities into hints. Python integers are unbounded,
  so coordinates are \<open>int\<close>; indices into a chunk, the padding width and the step size are
  counted from zero upwards and are \<open>nat\<close> (a negative \<open>--pad\<close> or \<open>--step-*\<close> is outside this
  model). Probabilities are float64 in the source and are idealised here as \<open>real\<close>.
\<close>

datatype error = IndexError nat | ValueError

text \<open>The dictionary yielded by \<open>get_contiguous_ranges\<close>, with the keys \<open>main\<close> reads.\<close>

record contiguous_bit =
  seqid :: string
  start_i :: nat
  end_i :: nat
  is_plus_strand :: bool

text \<open>The dictionary yielded by \<open>divvy_by_confidence\<close> (\<open>end\<close> is spelt \<open>end'\<close>).\<close>

record pre_hint =
  category :: nat
  start :: nat
  end' :: nat
  confidence :: real

section \<open>Coordinate resolver\<close>

definition start_end_strand ::
  "contiguous_bit \<Rightarrow> int \<Rightarrow> int \<Rightarrow> pre_hint \<Rightarrow> int \<times> int \<times> char" where
  "start_end_strand contiguous_bit pred_chunk_start one_category_start pre_hint =
     (if is_plus_strand contiguous_bit then
        let absolute_start = pred_chunk_start + one_category_start + int (start pre_hint);
            absolute_end = pred_chunk_start + one_category_start + int (end' pre_hint);
            gff_start = absolute_start + 1;
            gff_end = absolute_end
        in (gff_start, gff_end, CHR ''+'')
      else
        let absolute_start = pred_chunk_start - one_category_start - int (start pre_hint);
            absolute_end = pred_chunk_start - one_category_start - int (end' pre_hint);
            gff_start = absolute_start + 1;
            gff_end = absolute_end;
            (gff_start, gff_end) = (gff_end, gff_start)
        in (gff_start, gff_end, CHR ''-''))"

section \<open>numpy operations used by the divvier\<close>

text \<open>
  A chunk is a two-dimensional numpy array, modelled as the list of its rows; every row has
  the length of row 0. Reading past the end of an array raises \<open>IndexError\<close>; the indices the
  divvier uses are never negative.
\<close>

definition np_index :: "'a list \<Rightarrow> nat \<Rightarrow> error + 'a" where
  "np_index xs i = (if i < length xs then Inr (xs ! i) else Inl (IndexError i))"

text \<open>\<open>np.argmax\<close>: the first position of the largest entry; an empty row raises.\<close>

primrec argmax_from :: "real \<Rightarrow> nat \<Rightarrow> nat \<Rightarrow> real list \<Rightarrow> nat" where
  "argmax_from best best_i i [] = best_i"
| "argmax_from best best_i i (x # xs) =
     (if best < x then argmax_from x i (Suc i) xs else argmax_from best best_i (Suc i) xs)"

definition np_argmax :: "real list \<Rightarrow> error + nat" where
  "np_argmax row = (case row of [] \<Rightarrow> Inl ValueError | x # xs \<Rightarrow> Inr (argmax_from x 0 1 xs))"

primrec cumsum_from :: "real \<Rightarrow> real list \<Rightarrow> real list" where
  "cumsum_from acc [] = []"
| "cumsum_from acc (x # xs) = (acc + x) # cumsum_from (acc + x) xs"

definition np_cumsum :: "real list \<Rightarrow> real list" where
  "np_cumsum xs = cumsum_from 0 xs"

definition np_mean :: "real list \<Rightarrow> real" where
  "np_mean xs = sum_list xs / real (length xs)"

text \<open>
  \<open>one_class_chunk[:, main_class]\<close>, the column the divvier works on, and the running sum of
  the absolute differences of consecutive entries of that column
  (\<open>np.cumsum(np.abs(col[:-1] - col[1:]))\<close>).
\<close>

definition class_column :: "real list list \<Rightarrow> nat \<Rightarrow> real list" where
  "class_column one_class_chunk main_class = map (\<lambda>row. row ! main_class) one_class_chunk"

definition cumulative_diffs_of :: "real list \<Rightarrow> real list" where
  "cumulative_diffs_of col =
     (let diffs = map2 (\<lambda>a b. \<bar>a - b\<bar>) (butlast col) (tl col) in np_cumsum diffs)"

section \<open>Confidence-based divvier\<close>

text \<open>
  The generator \<open>divvy_by_confidence\<close> yields pre-hints one by one and may raise after some
  have been yielded, so its model returns the pre-hints yielded together with the error that
  ended the iteration, if any. \<open>divvy_loop\<close> is the \<open>for i in range(pad, padded_seq_end,
  min_step)\<close> loop with its two trackers; \<open>col\<close> is the column of the main class.
\<close>

function divvy_loop ::
  "real list \<Rightarrow> real list \<Rightarrow> nat \<Rightarrow> nat \<Rightarrow> int \<Rightarrow> real \<Rightarrow> nat \<Rightarrow> nat \<Rightarrow> nat \<Rightarrow> real
     \<Rightarrow> pre_hint list \<times> error option" where
  "divvy_loop col cumulative_diffs main_class min_step max_size stability_threshold
       padded_seq_end i end_of_last_yield cdiff_at_last_yield =
     (if min_step = 0 \<or> padded_seq_end \<le> i then ([], None)
      else
        let end_pos = min (i + min_step) padded_seq_end in
        case np_index cumulative_diffs end_pos of
          Inl err \<Rightarrow> ([], Some err)
        | Inr cdiff_at_end \<Rightarrow>
            if cdiff_at_end - cdiff_at_last_yield > stability_threshold \<or>
               int end_pos - int end_of_last_yield > max_size \<or>
               end_pos = padded_seq_end
            then
              let start_pos = end_of_last_yield;
                  hint = \<lparr>category = main_class, start = start_pos, end' = end_pos,
                          confidence = np_mean (take (end_pos - start_pos) (drop start_pos col))\<rparr>;
                  (rest, err) = divvy_loop col cumulative_diffs main_class min_step max_size
                                  stability_threshold padded_seq_end (i + min_step)
                                  end_pos cdiff_at_end
              in (hint # rest, err)
            else divvy_loop col cumulative_diffs main_class min_step max_size
                   stability_threshold padded_seq_end (i + min_step)
                   end_of_last_yield cdiff_at_last_yield)"
  by pat_completeness auto
termination
  by (relation "measure (\<lambda>(col, cds, c, min_step, ms, thr, padded_seq_end, i, l, cd).
                           padded_seq_end - i)") auto

definition divvy_by_confidence ::
  "real list list \<Rightarrow> (nat \<times> int) list \<Rightarrow> nat \<Rightarrow> real \<Rightarrow> pre_hint list \<times> error option" where
  "divvy_by_confidence one_class_chunk step_key pad stability_threshold =
     (case np_index one_class_chunk 0 of
        Inl err \<Rightarrow> ([], Some err)
      | Inr row0 \<Rightarrow>
     (case np_argmax row0 of
        Inl err \<Rightarrow> ([], Some err)
      | Inr main_class \<Rightarrow>
     (case np_index step_key main_class of
        Inl err \<Rightarrow> ([], Some err)
      | Inr (min_step, max_size) \<Rightarrow>
          let col = class_column one_class_chunk main_class;
              cumulative_diffs = cumulative_diffs_of col
          in
     (case np_index cumulative_diffs pad of
        Inl err \<Rightarrow> ([], Some err)
      | Inr cdiff_at_last_yield \<Rightarrow>
          let end_of_last_yield = pad;
              padded_seq_end = length one_class_chunk - pad
          in if min_step = 0 then ([], Some ValueError)
             else divvy_loop col cumulative_diffs main_class min_step max_size
                    stability_threshold padded_seq_end pad
                    end_of_last_yield cdiff_at_last_yield))))"

text \<open>
  The indices at which the generator indexes \<open>cumulative_diffs\<close>, in the order of the reads:
  \<open>cumulative_diffs[pad]\<close> before the loop, \<open>cumulative_diffs[end]\<close> in the condition of every
  iteration, and \<open>cumulative_diffs[end]\<close> once more when the trackers are reset after a yield.
  A read that raises is the last one.
\<close>

function divvy_loop_reads ::
  "real list \<Rightarrow> nat \<Rightarrow> int \<Rightarrow> real \<Rightarrow> nat \<Rightarrow> nat \<Rightarrow> nat \<Rightarrow> real \<Rightarrow> nat list" where
  "divvy_loop_reads cumulative_diffs min_step max_size stability_threshold
       padded_seq_end i end_of_last_yield cdiff_at_last_yield =
     (if min_step = 0 \<or> padded_seq_end \<le> i then []
      else
        let end_pos = min (i + min_step) padded_seq_end in
        case np_index cumulative_diffs end_pos of
          Inl err \<Rightarrow> [end_pos]
        | Inr cdiff_at_end \<Rightarrow>
            if cdiff_at_end - cdiff_at_last_yield > stability_threshold \<or>
               int end_pos - int end_of_last_yield > max_size \<or>
               end_pos = padded_seq_end
            then end_pos # end_pos #
                 divvy_loop_reads cumulative_diffs min_step max_size stability_threshold
                   padded_seq_end (i + min_step) end_pos cdiff_at_end
            else end_pos #
                 divvy_loop_reads cumulative_diffs min_step max_size stability_threshold
                   padded_seq_end (i + min_step) end_of_last_yield cdiff_at_last_yield)"
  by pat_completeness auto
termination
  by (relation "measure (\<lambda>(cds, min_step, ms, thr, padded_seq_end, i, l, cd).
                           padded_seq_end - i)") auto

definition divvy_reads :: "real list list \<Rightarrow> (nat \<times> int) list \<Rightarrow> nat \<Rightarrow> real \<Rightarrow> nat list" where
  "divvy_reads one_class_chunk step_key pad stability_threshold =
     (case np_index one_class_chunk 0 of
        Inl err \<Rightarrow> []
      | Inr row0 \<Rightarrow>
     (case np_argmax row0 of
        Inl err \<Rightarrow> []
      | Inr main_class \<Rightarrow>
     (case np_index step_key main_class of
        Inl err \<Rightarrow> []
      | Inr (min_step, max_size) \<Rightarrow>
          let col = class_column one_class_chunk main_class;
              cumulative_diffs = cumulative_diffs_of col
          in
     (case np_index cumulative_diffs pad of
        Inl err \<Rightarrow> [pad]
      | Inr cdiff_at_last_yield \<Rightarrow>
          let end_of_last_yield = pad;
              padded_seq_end = length one_class_chunk - pad
          in if min_step = 0 then [pad]
             else pad # divvy_loop_reads cumulative_diffs min_step max_size
                    stability_threshold padded_seq_end pad
                    end_of_last_yield cdiff_at_last_yield))))"

section \<open>The wiring in \<open>main\<close>\<close>

text \<open>The options of the argument parser that the pipeline reads or declares.\<close>

record arguments =
  step_genicpart :: nat
  max_genicpart_size :: int
  step_irpart :: nat
  max_irpart_size :: int
  pad :: nat
  stability_threshold :: real

definition hint_step_key :: "arguments \<Rightarrow> (nat \<times> int) list" where
  "hint_step_key arguments =
     (let ir_step_and_max = (step_irpart arguments, int (step_irpart arguments));
          genic_step_and_max = (step_genicpart arguments, int (step_genicpart arguments))
      in [ir_step_and_max, genic_step_and_max, genic_step_and_max, genic_step_and_max])"

text \<open>
  The call \<open>divvy_by_confidence(one_class_chunk, hint_step_key, pad=arguments.pad)\<close>: the
  fourth parameter is not passed and takes its default, \<open>0.1\<close>.
\<close>

definition main_pre_hints :: "arguments \<Rightarrow> real list list \<Rightarrow> pre_hint list \<times> error option" where
  "main_pre_hints arguments one_class_chunk =
     divvy_by_confidence one_class_chunk (hint_step_key arguments) (pad arguments) (1 / 10)"

text \<open>
  The body of the two inner loops of \<open>main\<close> for one confident sub-region
  \<open>(start_conf, end_conf)\<close> of one prediction chunk read at offset \<open>start\<close>: the coordinates and
  strand of every line written, in order.
\<close>

definition main_hints ::
  "arguments \<Rightarrow> contiguous_bit \<Rightarrow> real list list \<Rightarrow> int \<Rightarrow> nat \<Rightarrow> nat \<Rightarrow> (int \<times> int \<times> char) list" where
  "main_hints arguments contiguous_bit pred_chunk start_of_chunk start_conf end_conf =
     (let one_class_chunk = take (end_conf - start_conf) (drop start_conf pred_chunk)
      in map (\<lambda>pre_hint. start_end_strand contiguous_bit start_of_chunk (int start_conf) pre_hint)
           (fst (main_pre_hints arguments one_class_chunk)))"

section \<open>The volatility of a span, as the specification words it\<close>

text \<open>
  The cumulative absolute change of the dominant class's probability across the rows
  \<open>[s, e)\<close> of a column: the sum of \<open>\<bar>col[j] - col[j+1]\<bar>\<close> over the consecutive rows \<open>j\<close>,
  \<open>j + 1\<close> that both lie in the span.
\<close>

definition span_change :: "real list \<Rightarrow> nat \<Rightarrow> nat \<Rightarrow> real" where
  "span_change col s e = sum_list (map (\<lambda>j. \<bar>col ! j - col ! Suc j\<bar>) [s..<e - 1])"

section \<open>Consecutive pre-hints\<close>

text \<open>
  A list of pre-hints is linked from \<open>a\<close> when the first starts at \<open>a\<close>, each is non-empty
  and each starts where the one before it ends.
\<close>

fun linked :: "nat \<Rightarrow> pre_hint list \<Rightarrow> bool" where
  "linked a [] = True"
| "linked a (h # hs) = (start h = a \<and> a < end' h \<and> linked (end' h) hs)"

section \<open>Properties of the numpy operations and of the loop\<close>

lemma length_cumsum_from: "length (cumsum_from acc xs) = length xs"
  by (induction xs arbitrary: acc) simp_all

lemma length_cumulative_diffs_of: "length (cumulative_diffs_of col) = length col - 1"
  by (simp add: cumulative_diffs_of_def np_cumsum_def length_cumsum_from)

lemma length_class_column: "length (class_column chunk c) = length chunk"
  by (simp add: class_column_def)

lemma argmax_from_less: "best_i < i \<Longrightarrow> argmax_from best best_i i xs < i + length xs"
proof (induction xs arbitrary: best best_i i)
  case Nil
  then show ?case by simp
next
  case (Cons x xs)
  have a: "argmax_from x i (Suc i) xs < Suc i + length xs"
    using Cons.IH [of i "Suc i" x] by simp
  have b: "argmax_from best best_i (Suc i) xs < Suc i + length xs"
    using Cons.IH [of best_i "Suc i" best] Cons.prems by simp
  show ?case using a b by simp
qed

lemma np_argmax_less: "np_argmax row = Inr c \<Longrightarrow> c < length row"
  using argmax_from_less [of 0 1]
  by (auto simp: np_argmax_def split: list.splits)

declare divvy_loop.simps [simp del]

lemma divvy_loop_stop:
  "min_step = 0 \<or> pse \<le> i \<Longrightarrow>
   divvy_loop col cds c min_step max_size thr pse i last_end cdl = ([], None)"
  by (subst divvy_loop.simps) simp

lemma divvy_loop_error:
  "0 < min_step \<Longrightarrow> i < pse \<Longrightarrow> np_index cds (min (i + min_step) pse) = Inl err \<Longrightarrow>
   divvy_loop col cds c min_step max_size thr pse i last_end cdl = ([], Some err)"
  by (subst divvy_loop.simps) simp

lemma divvy_loop_yield:
  "0 < min_step \<Longrightarrow> i < pse \<Longrightarrow> np_index cds (min (i + min_step) pse) = Inr cd \<Longrightarrow>
   cd - cdl > thr \<or> int (min (i + min_step) pse) - int last_end > max_size
     \<or> min (i + min_step) pse = pse \<Longrightarrow>
   divvy_loop col cds c min_step max_size thr pse i last_end cdl =
     (\<lparr>category = c, start = last_end, end' = min (i + min_step) pse,
       confidence = np_mean (take (min (i + min_step) pse - last_end) (drop last_end col))\<rparr>
      # fst (divvy_loop col cds c min_step max_size thr pse (i + min_step)
               (min (i + min_step) pse) cd),
      snd (divvy_loop col cds c min_step max_size thr pse (i + min_step)
               (min (i + min_step) pse) cd))"
  by (subst divvy_loop.simps) (simp add: case_prod_beta Let_def)

lemma divvy_loop_skip:
  "0 < min_step \<Longrightarrow> i < pse \<Longrightarrow> np_index cds (min (i + min_step) pse) = Inr cd \<Longrightarrow>
   \<not> (cd - cdl > thr \<or> int (min (i + min_step) pse) - int last_end > max_size
     \<or> min (i + min_step) pse = pse) \<Longrightarrow>
   divvy_loop col cds c min_step max_size thr pse i last_end cdl =
     divvy_loop col cds c min_step max_size thr pse (i + min_step) last_end cdl"
  by (subst divvy_loop.simps) (simp add: Let_def)


lemma divvy_loop_linked:
  "last_end \<le> i \<Longrightarrow>
   linked last_end (fst (divvy_loop col cds c min_step max_size thr pse i last_end cdl)) \<and>
   (\<forall>h \<in> set (fst (divvy_loop col cds c min_step max_size thr pse i last_end cdl)).
      end' h \<le> pse \<and> end' h < length cds)"
proof (induction col cds c min_step max_size thr pse i last_end cdl rule: divvy_loop.induct)
  case (1 col cds c min_step max_size thr pse i last_end cdl)
  show ?case
  proof (cases "min_step = 0 \<or> pse \<le> i")
    case True
    then show ?thesis by (simp add: divvy_loop_stop)
  next
    case False
    then have pos: "0 < min_step" "i < pse" by auto
    define e where "e = min (i + min_step) pse"
    have e: "i < e" "e \<le> pse" "e \<le> i + min_step" using False by (auto simp: e_def)
    show ?thesis
    proof (cases "np_index cds e")
      case (Inl err)
      then show ?thesis using pos by (simp add: divvy_loop_error e_def)
    next
      case (Inr cd)
      then have eb: "e < length cds" by (auto simp: np_index_def split: if_splits)
      show ?thesis
      proof (cases "cd - cdl > thr \<or> int e - int last_end > max_size \<or> e = pse")
        case True
        have IH: "linked e (fst (divvy_loop col cds c min_step max_size thr pse (i + min_step) e cd)) \<and>
            (\<forall>h \<in> set (fst (divvy_loop col cds c min_step max_size thr pse (i + min_step) e cd)).
              end' h \<le> pse \<and> end' h < length cds)"
          using "1.IH"(1) [OF False e_def Inr True refl refl] e by simp
        have "divvy_loop col cds c min_step max_size thr pse i last_end cdl =
           (\<lparr>category = c, start = last_end, end' = e,
             confidence = np_mean (take (e - last_end) (drop last_end col))\<rparr>
            # fst (divvy_loop col cds c min_step max_size thr pse (i + min_step) e cd),
            snd (divvy_loop col cds c min_step max_size thr pse (i + min_step) e cd))"
          using divvy_loop_yield [OF pos, where cds=cds and cd=cd and cdl=cdl and thr=thr and last_end=last_end and max_size=max_size and col=col and c=c] Inr True
          by (simp add: e_def)
        then show ?thesis using IH e eb "1.prems" by simp
      next
        case F2: False
        have IH: "linked last_end (fst (divvy_loop col cds c min_step max_size thr pse (i + min_step) last_end cdl)) \<and>
            (\<forall>h \<in> set (fst (divvy_loop col cds c min_step max_size thr pse (i + min_step) last_end cdl)).
              end' h \<le> pse \<and> end' h < length cds)"
          using "1.IH"(2) [OF False e_def Inr F2] "1.prems" by simp
        have "divvy_loop col cds c min_step max_size thr pse i last_end cdl =
              divvy_loop col cds c min_step max_size thr pse (i + min_step) last_end cdl"
          using divvy_loop_skip [OF pos, where cds=cds and cd=cd and cdl=cdl and thr=thr and last_end=last_end and max_size=max_size and col=col and c=c] Inr F2
          by (simp add: e_def)
        then show ?thesis using IH by simp
      qed
    qed
  qed
qed


lemma divvy_loop_rule [case_names stop error yield skip]:
  assumes "\<And>i last_end cdl. min_step = 0 \<or> pse \<le> i \<Longrightarrow> P i last_end cdl"
    and "\<And>i last_end cdl err. 0 < min_step \<Longrightarrow> i < pse \<Longrightarrow>
           np_index cds (min (i + min_step) pse) = Inl err \<Longrightarrow> P i last_end cdl"
    and "\<And>i last_end cdl cd. 0 < min_step \<Longrightarrow> i < pse \<Longrightarrow>
           np_index cds (min (i + min_step) pse) = Inr cd \<Longrightarrow>
           cd - cdl > thr \<or> int (min (i + min_step) pse) - int last_end > max_size
             \<or> min (i + min_step) pse = pse \<Longrightarrow>
           P (i + min_step) (min (i + min_step) pse) cd \<Longrightarrow> P i last_end cdl"
    and "\<And>i last_end cdl cd. 0 < min_step \<Longrightarrow> i < pse \<Longrightarrow>
           np_index cds (min (i + min_step) pse) = Inr cd \<Longrightarrow>
           \<not> (cd - cdl > thr \<or> int (min (i + min_step) pse) - int last_end > max_size
             \<or> min (i + min_step) pse = pse) \<Longrightarrow>
           P (i + min_step) last_end cdl \<Longrightarrow> P i last_end cdl"
  shows "P (i::nat) (last_end::nat) (cdl::real)"
proof (induction "pse - i" arbitrary: i last_end cdl rule: less_induct)
  case (less i last_end cdl)
  show ?case
  proof (cases "min_step = 0 \<or> pse \<le> i")
    case True
    then show ?thesis by (rule assms(1))
  next
    case False
    then have pos: "0 < min_step" "i < pse" by auto
    then have dec: "pse - (i + min_step) < pse - i" by simp
    show ?thesis
    proof (cases "np_index cds (min (i + min_step) pse)")
      case (Inl err)
      then show ?thesis using pos assms(2) by blast
    next
      case (Inr cd)
      show ?thesis
      proof (cases "cd - cdl > thr \<or> int (min (i + min_step) pse) - int last_end > max_size
             \<or> min (i + min_step) pse = pse")
        case True
        show ?thesis by (rule assms(3) [OF pos Inr True less [OF dec]])
      next
        case F: False
        show ?thesis by (rule assms(4) [OF pos Inr F less [OF dec]])
      qed
    qed
  qed
qed

lemma divvy_loop_complete:
  assumes "0 < min_step" and "pse < length cds"
  shows "snd (divvy_loop col cds c min_step max_size thr pse i last_end cdl) = None \<and>
    (i < pse \<longrightarrow> fst (divvy_loop col cds c min_step max_size thr pse i last_end cdl) \<noteq> [] \<and>
       end' (last (fst (divvy_loop col cds c min_step max_size thr pse i last_end cdl))) = pse)"
proof (induction i last_end cdl
    rule: divvy_loop_rule [where min_step = min_step and pse = pse and cds = cds
                             and thr = thr and max_size = max_size])
  case (stop i last_end cdl)
  then show ?case using assms by (simp add: divvy_loop_stop)
next
  case (error i last_end cdl err)
  then show ?case using assms by (auto simp: np_index_def split: if_splits)
next
  case (yield i last_end cdl cd)
  let ?e = "min (i + min_step) pse"
  let ?rec = "divvy_loop col cds c min_step max_size thr pse (i + min_step) ?e cd"
  have u: "divvy_loop col cds c min_step max_size thr pse i last_end cdl =
      (\<lparr>category = c, start = last_end, end' = ?e,
        confidence = np_mean (take (?e - last_end) (drop last_end col))\<rparr> # fst ?rec, snd ?rec)"
    using yield(1-4) by (rule divvy_loop_yield)
  show ?case
  proof (cases "i + min_step < pse")
    case True
    then show ?thesis using u yield.IH by simp
  next
    case False
    then have "?rec = ([], None)" by (simp add: divvy_loop_stop)
    then show ?thesis using u False by simp
  qed
next
  case (skip i last_end cdl cd)
  have u: "divvy_loop col cds c min_step max_size thr pse i last_end cdl =
      divvy_loop col cds c min_step max_size thr pse (i + min_step) last_end cdl"
    using skip(1-4) by (rule divvy_loop_skip)
  have "i + min_step < pse" using skip(4) by (simp add: min_def split: if_splits)
  then show ?case using u skip.IH by simp
qed

lemma divvy_loop_out_of_bounds:
  assumes "length cds \<le> pse"
  shows "i < pse \<Longrightarrow> 0 < min_step \<Longrightarrow>
    snd (divvy_loop col cds c min_step max_size thr pse i last_end cdl) \<noteq> None"
proof (induction i last_end cdl
    rule: divvy_loop_rule [where min_step = min_step and pse = pse and cds = cds
                             and thr = thr and max_size = max_size])
  case (stop i last_end cdl)
  then show ?case by simp
next
  case (error i last_end cdl err)
  then show ?case by (simp add: divvy_loop_error)
next
  case (yield i last_end cdl cd)
  let ?e = "min (i + min_step) pse"
  let ?rec = "divvy_loop col cds c min_step max_size thr pse (i + min_step) ?e cd"
  have u: "snd (divvy_loop col cds c min_step max_size thr pse i last_end cdl) = snd ?rec"
    using divvy_loop_yield [OF yield(1-4)] by simp
  have "?e < length cds" using yield(3) by (auto simp: np_index_def split: if_splits)
  then have "i + min_step < pse" using assms by (simp add: min_def split: if_splits)
  then show ?case using u yield.IH yield(1) by simp
next
  case (skip i last_end cdl cd)
  have u: "divvy_loop col cds c min_step max_size thr pse i last_end cdl =
      divvy_loop col cds c min_step max_size thr pse (i + min_step) last_end cdl"
    using skip(1-4) by (rule divvy_loop_skip)
  have "i + min_step < pse" using skip(4) by (simp add: min_def split: if_splits)
  then show ?case using u skip.IH skip(1) by simp
qed


lemma np_index_InrD: "np_index xs i = Inr v \<Longrightarrow> i < length xs \<and> v = xs ! i"
  by (auto simp: np_index_def split: if_splits)

lemma step_multiple_le:
  assumes "0 < (s::nat)" and "a + j * s < e" and "e \<le> a + j0 * s + s"
  shows "a + j * s \<le> a + j0 * s"
proof -
  have "j * s < Suc j0 * s" using assms by simp
  then have "j < Suc j0" using mult_less_cancel2 by blast
  then have "j \<le> j0" by simp
  then have "j * s \<le> j0 * s" by (rule mult_le_mono1)
  then show ?thesis by simp
qed

lemma step_multiple_next:
  assumes "0 < (s::nat)" and "a + j * s \<le> a + j0 * s + s" and "\<not> a + j * s \<le> a + j0 * s"
  shows "j * s = j0 * s + s"
proof -
  have "j * s \<le> Suc j0 * s" using assms by simp
  then have 1: "j \<le> Suc j0" using assms(1) by (simp only: mult_le_cancel2)
  have "j0 * s < j * s" using assms by simp
  then have "j0 < j" using mult_less_cancel2 by blast
  then have "j = Suc j0" using 1 by simp
  then show ?thesis by simp
qed

lemma divvy_loop_volatility:
  shows "\<exists>j0. i = last_end + j0 * min_step \<Longrightarrow> cdl = cds ! last_end \<Longrightarrow>
    (\<forall>j. 0 < j \<and> last_end + j * min_step \<le> i \<longrightarrow>
         cds ! (last_end + j * min_step) - cdl \<le> thr \<and> int (j * min_step) \<le> max_size) \<Longrightarrow>
    \<forall>h \<in> set (fst (divvy_loop col cds c min_step max_size thr pse i last_end cdl)).
      (\<forall>j. 0 < j \<and> start h + j * min_step < end' h \<longrightarrow>
          cds ! (start h + j * min_step) - cds ! start h \<le> thr \<and> int (j * min_step) \<le> max_size)
      \<and> (end' h \<noteq> pse \<longrightarrow>
          cds ! end' h - cds ! start h > thr \<or> int (end' h) - int (start h) > max_size)"
proof (induction i last_end cdl
    rule: divvy_loop_rule [where min_step = min_step and pse = pse and cds = cds
                             and thr = thr and max_size = max_size])
  case (stop i last_end cdl)
  then show ?case by (simp add: divvy_loop_stop)
next
  case (error i last_end cdl err)
  then show ?case by (simp add: divvy_loop_error)
next
  case (yield i last_end cdl cd)
  let ?e = "min (i + min_step) pse"
  let ?rec = "divvy_loop col cds c min_step max_size thr pse (i + min_step) ?e cd"
  let ?h = "\<lparr>category = c, start = last_end, end' = ?e,
        confidence = np_mean (take (?e - last_end) (drop last_end col))\<rparr>"
  have u: "fst (divvy_loop col cds c min_step max_size thr pse i last_end cdl) = ?h # fst ?rec"
    using divvy_loop_yield [OF yield(1-4)] by simp
  obtain j0 where j0: "i = last_end + j0 * min_step" using yield.prems(1) by blast
  have cd: "cd = cds ! ?e" using np_index_InrD [OF yield(3)] by simp
  have inner: "cds ! (last_end + j * min_step) - cds ! last_end \<le> thr \<and> int (j * min_step) \<le> max_size"
    if "0 < j" "last_end + j * min_step < ?e" for j
  proof -
    have "last_end + j * min_step \<le> last_end + j0 * min_step"
      using step_multiple_le [OF yield(1) that(2)] j0 by simp
    then show ?thesis using yield.prems(2,3) that(1) j0 by simp
  qed
  have closed: "?e \<noteq> pse \<Longrightarrow> cds ! ?e - cds ! last_end > thr \<or> int ?e - int last_end > max_size"
    using yield(4) cd yield.prems(2) by auto
  have rest: "\<forall>h \<in> set (fst ?rec).
      (\<forall>j. 0 < j \<and> start h + j * min_step < end' h \<longrightarrow>
          cds ! (start h + j * min_step) - cds ! start h \<le> thr \<and> int (j * min_step) \<le> max_size)
      \<and> (end' h \<noteq> pse \<longrightarrow>
          cds ! end' h - cds ! start h > thr \<or> int (end' h) - int (start h) > max_size)"
  proof (cases "i + min_step < pse")
    case True
    then have e: "?e = i + min_step" by simp
    have 1: "\<exists>j0. i + min_step = ?e + j0 * min_step" using e by simp
    have 2: "\<forall>j. 0 < j \<and> ?e + j * min_step \<le> i + min_step \<longrightarrow>
         cds ! (?e + j * min_step) - cd \<le> thr \<and> int (j * min_step) \<le> max_size"
      using e yield(1) by simp
    show ?thesis by (rule yield.IH [OF 1 cd 2])
  next
    case False
    then show ?thesis by (simp add: divvy_loop_stop)
  qed
  show ?case unfolding u using inner closed rest by simp
next
  case (skip i last_end cdl cd)
  let ?e = "min (i + min_step) pse"
  have u: "divvy_loop col cds c min_step max_size thr pse i last_end cdl =
      divvy_loop col cds c min_step max_size thr pse (i + min_step) last_end cdl"
    using skip(1-4) by (rule divvy_loop_skip)
  have lt: "i + min_step < pse" using skip(4) by (simp add: min_def split: if_splits)
  then have e: "?e = i + min_step" by simp
  obtain j0 where j0: "i = last_end + j0 * min_step" using skip.prems(1) by blast
  have cd: "cd = cds ! (i + min_step)" using np_index_InrD [OF skip(3)] e by simp
  have ok: "cd - cdl \<le> thr" "int (i + min_step) - int last_end \<le> max_size"
    using skip(4) e by auto
  have 1: "\<exists>j. i + min_step = last_end + j * min_step"
    using j0 by (intro exI [of _ "Suc j0"]) simp
  have 2: "\<forall>j. 0 < j \<and> last_end + j * min_step \<le> i + min_step \<longrightarrow>
         cds ! (last_end + j * min_step) - cdl \<le> thr \<and> int (j * min_step) \<le> max_size"
  proof (intro allI impI)
    fix j assume j: "0 < j \<and> last_end + j * min_step \<le> i + min_step"
    show "cds ! (last_end + j * min_step) - cdl \<le> thr \<and> int (j * min_step) \<le> max_size"
    proof (cases "last_end + j * min_step \<le> i")
      case True
      then show ?thesis using skip.prems(3) j by blast
    next
      case False
      have "j * min_step = j0 * min_step + min_step"
        using step_multiple_next [OF skip(1), of last_end j j0] j False j0 by simp
      then have eq1: "last_end + j * min_step = i + min_step"
        using j0 by simp
      then have eq2: "int (j * min_step) = int (i + min_step) - int last_end"
        by linarith
      have "cds ! (i + min_step) - cdl \<le> thr" using ok(1) cd by simp
      then show ?thesis unfolding eq1 eq2 using ok(2) by blast
    qed
  qed
  show ?case unfolding u by (rule skip.IH [OF 1 skip.prems(2) 2])
qed


section \<open>Properties of linked pre-hints, of the running sum and of the generator\<close>

lemma linked_set: "linked a hs \<Longrightarrow> h \<in> set hs \<Longrightarrow> a \<le> start h \<and> start h < end' h"
  by (induction hs arbitrary: a) fastforce+

lemma linked_hd: "linked a hs \<Longrightarrow> hs \<noteq> [] \<Longrightarrow> start (hd hs) = a"
  by (cases hs) simp_all

lemma linked_last: "linked a hs \<Longrightarrow> hs \<noteq> [] \<Longrightarrow> a < end' (last hs)"
  by (induction hs arbitrary: a) fastforce+

lemma linked_nth:
  "linked a hs \<Longrightarrow> Suc k < length hs \<Longrightarrow> end' (hs ! k) = start (hs ! Suc k)"
proof (induction hs arbitrary: a k)
  case Nil
  then show ?case by simp
next
  case (Cons h hs)
  show ?case
  proof (cases k)
    case 0
    then show ?thesis using Cons.prems linked_hd [of "end' h" hs] by (cases hs) simp_all
  next
    case (Suc k')
    then show ?thesis using Cons.prems Cons.IH [of "end' h" k'] by simp
  qed
qed

lemma linked_ordered:
  "linked a hs \<Longrightarrow> i < j \<Longrightarrow> j < length hs \<Longrightarrow> end' (hs ! i) \<le> start (hs ! j)"
proof (induction hs arbitrary: a i j)
  case Nil
  then show ?case by simp
next
  case (Cons h hs)
  obtain j' where j: "j = Suc j'" using Cons.prems(2) by (cases j) simp_all
  then have j': "j' < length hs" using Cons.prems(3) by simp
  show ?case
  proof (cases i)
    case 0
    have "end' h \<le> start (hs ! j')"
      using linked_set [of "end' h" hs "hs ! j'"] Cons.prems(1) j' by simp
    then show ?thesis using 0 j by simp
  next
    case (Suc i')
    then show ?thesis using Cons.prems j Cons.IH [of "end' h" i' j'] by simp
  qed
qed

lemma linked_union:
  "linked a hs \<Longrightarrow> hs \<noteq> [] \<Longrightarrow> (\<Union>h \<in> set hs. {start h..<end' h}) = {a..<end' (last hs)}"
proof (induction hs arbitrary: a)
  case Nil
  then show ?case by simp
next
  case (Cons h hs)
  show ?case
  proof (cases "hs = []")
    case True
    then show ?thesis using Cons.prems by simp
  next
    case False
    have l: "linked (end' h) hs" "start h = a" "a < end' h" using Cons.prems by simp_all
    have "end' h < end' (last hs)" using linked_last [OF l(1) False] .
    then have "{a..<end' h} \<union> {end' h..<end' (last hs)} = {a..<end' (last hs)}"
      using l(3) by auto
    then show ?thesis using Cons.IH [OF l(1) False] False l(2) by simp
  qed
qed

lemma cumsum_from_nth:
  "k < length xs \<Longrightarrow> cumsum_from acc xs ! k = acc + sum_list (take (Suc k) xs)"
proof (induction xs arbitrary: acc k)
  case Nil
  then show ?case by simp
next
  case (Cons x xs)
  then show ?case by (cases k) simp_all
qed

lemma sum_list_take_Suc_diff:
  fixes ds :: "real list"
  shows "s \<le> b \<Longrightarrow> b < length ds \<Longrightarrow>
    sum_list (take (Suc b) ds) - sum_list (take (Suc s) ds) = sum_list (map (\<lambda>j. ds ! j) [Suc s..<Suc b])"
proof (induction b)
  case 0
  then show ?case by simp
next
  case (Suc b)
  show ?case
  proof (cases "s = Suc b")
    case True
    then show ?thesis by simp
  next
    case False
    then have sb: "s \<le> b" "b < length ds" using Suc.prems by simp_all
    have "take (Suc (Suc b)) ds = take (Suc b) ds @ [ds ! Suc b]"
      using Suc.prems(2) by (simp add: take_Suc_conv_app_nth)
    then show ?thesis using Suc.IH [OF sb] sb by simp
  qed
qed

lemma cumulative_diffs_window:
  assumes "s \<le> b" and "b + 1 < length col"
  shows "cumulative_diffs_of col ! b - cumulative_diffs_of col ! s = span_change col (Suc s) (b + 2)"
proof -
  let ?ds = "map2 (\<lambda>a b. \<bar>a - b\<bar>) (butlast col) (tl col)"
  have len: "length ?ds = length col - 1" by simp
  have nth: "?ds ! j = \<bar>col ! j - col ! Suc j\<bar>" if "j < length col - 1" for j
    using that by (simp add: nth_butlast nth_tl)
  have b: "b < length ?ds" "s < length ?ds" using assms by simp_all
  have "cumulative_diffs_of col ! b - cumulative_diffs_of col ! s =
        sum_list (take (Suc b) ?ds) - sum_list (take (Suc s) ?ds)"
    using b by (simp add: cumulative_diffs_of_def np_cumsum_def cumsum_from_nth del: length_map length_zip)
  also have "\<dots> = sum_list (map (\<lambda>j. ?ds ! j) [Suc s..<Suc b])"
    using sum_list_take_Suc_diff [OF assms(1) b(1)] .
  also have "map (\<lambda>j. ?ds ! j) [Suc s..<Suc b] = map (\<lambda>j. \<bar>col ! j - col ! Suc j\<bar>) [Suc s..<Suc b]"
    using assms by (intro map_cong refl nth) auto
  finally show ?thesis by (simp add: span_change_def)
qed

lemma divvy_by_confidence_run:
  assumes "np_index chunk 0 = Inr row0" and "np_argmax row0 = Inr c"
    and "np_index step_key c = Inr (min_step, max_size)"
    and "np_index (cumulative_diffs_of (class_column chunk c)) p = Inr cd0"
    and "0 < min_step"
  shows "divvy_by_confidence chunk step_key p thr =
     divvy_loop (class_column chunk c) (cumulative_diffs_of (class_column chunk c)) c
       min_step max_size thr (length chunk - p) p p cd0"
  using assms by (simp add: divvy_by_confidence_def Let_def)

lemma divvy_by_confidence_cases:
  "fst (divvy_by_confidence chunk step_key p thr) = [] \<or>
   (\<exists>c min_step max_size cd0.
      np_argmax (chunk ! 0) = Inr c \<and> np_index step_key c = Inr (min_step, max_size) \<and>
      np_index (cumulative_diffs_of (class_column chunk c)) p = Inr cd0 \<and> 0 < min_step \<and>
      divvy_by_confidence chunk step_key p thr =
        divvy_loop (class_column chunk c) (cumulative_diffs_of (class_column chunk c)) c
          min_step max_size thr (length chunk - p) p p cd0)"
  by (auto simp: divvy_by_confidence_def Let_def np_index_def split: sum.splits prod.splits if_splits)

lemma divvy_hint_bounds:
  assumes "h \<in> set (fst (divvy_by_confidence chunk step_key p thr))"
  shows "p \<le> start h \<and> start h < end' h \<and> end' h \<le> length chunk - p \<and> end' h + 2 \<le> length chunk"
proof -
  obtain c min_step max_size cd0 where
    run: "divvy_by_confidence chunk step_key p thr =
        divvy_loop (class_column chunk c) (cumulative_diffs_of (class_column chunk c)) c
          min_step max_size thr (length chunk - p) p p cd0"
    using divvy_by_confidence_cases [of chunk step_key p thr] assms by auto
  have "linked p (fst (divvy_by_confidence chunk step_key p thr)) \<and>
      (\<forall>h \<in> set (fst (divvy_by_confidence chunk step_key p thr)).
         end' h \<le> length chunk - p \<and> end' h < length (cumulative_diffs_of (class_column chunk c)))"
    unfolding run by (rule divvy_loop_linked) simp
  then show ?thesis
    using assms linked_set [of p _ h]
    by (auto simp: length_cumulative_diffs_of length_class_column)
qed


section \<open>Forward strand\<close>

text \<open>
  Claim C1. On the forward strand the resolver returns
  \<open>gff_start = chunk_start + subregion_start + prehint.start + 1\<close> and
  \<open>gff_end = chunk_start + subregion_start + prehint.end\<close> with strand \<open>+\<close>; with chunk start
  1000, sub-region offset 5 and pre-hint [2,8) the result is (1008, 1013).
\<close>

theorem forward_strand_coordinates:
  "start_end_strand ((cb::contiguous_bit)\<lparr>is_plus_strand := True\<rparr>) chunk_start subregion_start h =
     (chunk_start + subregion_start + int (start h) + 1,
      chunk_start + subregion_start + int (end' h), CHR ''+'')
   \<and> start_end_strand ((cb::contiguous_bit)\<lparr>is_plus_strand := True\<rparr>) 1000 5 (h\<lparr>start := 2, end' := 8\<rparr>) =
     (1008, 1013, CHR ''+'')"
  by (simp add: start_end_strand_def)

section \<open>Reverse strand\<close>

text \<open>
  Claim C2. On the reverse strand the sub-region offset and the pre-hint's start and end are
  subtracted from the chunk start, 1 is added to the raw start only, and the two values are
  swapped: the raw end is published as start and the raw start plus one as end, with strand
  \<open>-\<close>. For a pre-hint with \<open>start \<le> end\<close> the published start is at most the published end.
\<close>

theorem reverse_strand_coordinates:
  "start_end_strand ((cb::contiguous_bit)\<lparr>is_plus_strand := False\<rparr>) chunk_start subregion_start h =
     (chunk_start - subregion_start - int (end' h),
      (chunk_start - subregion_start - int (start h)) + 1, CHR ''-'')
   \<and> (start h \<le> end' h \<longrightarrow>
        fst (start_end_strand ((cb::contiguous_bit)\<lparr>is_plus_strand := False\<rparr>) chunk_start subregion_start h)
        \<le> fst (snd (start_end_strand ((cb::contiguous_bit)\<lparr>is_plus_strand := False\<rparr>) chunk_start subregion_start h)))"
  by (simp add: start_end_strand_def)

theorem reverse_strand_coordinates_witness:
  "start_end_strand
     \<lparr>seqid = ''chr1'', start_i = 0, end_i = 30, is_plus_strand = False\<rparr> 1000 5
     \<lparr>category = 0, start = 2, end' = 8, confidence = 1\<rparr> = (987, 994, CHR ''-'')
   \<and> (2::nat) \<le> 8 \<and> (987::int) \<le> 994"
  using reverse_strand_coordinates
    [of "\<lparr>seqid = ''chr1'', start_i = 0, end_i = 30, is_plus_strand = False\<rparr>" 1000 5
        "\<lparr>category = 0, start = 2, end' = 8, confidence = 1\<rparr>"]
  by simp

section \<open>Strand symmetry\<close>

text \<open>
  Claim C3. A forward-strand chunk and its mirror (rows reversed, strand flag flipped) should
  resolve corresponding pre-hints to the same absolute span with opposite strand labels. The
  resolver does not: the forward pre-hint [2,8) at chunk start 1000 and sub-region offset 5
  resolves to (1008, 1013), its mirror image (rows 7 to 12 of the 20 reversed rows, chunk
  start 1020) to (1007, 1014); and whatever offsets the mirror is given, a pre-hint of \<open>n\<close>
  rows spans two more positions on the reverse strand than on the forward strand.
\<close>

theorem strand_mirror_span_mismatch:
  "start_end_strand ((cb::contiguous_bit)\<lparr>is_plus_strand := True\<rparr>) 1000 5
      (h\<lparr>start := 2, end' := 8\<rparr>) = (1008, 1013, CHR ''+'')
   \<and> start_end_strand (cb\<lparr>is_plus_strand := False\<rparr>) 1020 5
      (h\<lparr>start := 2, end' := 8\<rparr>) = (1007, 1014, CHR ''-'')
   \<and> fst (snd (start_end_strand (cb\<lparr>is_plus_strand := False\<rparr>) mirror_chunk_start
                 mirror_subregion_start (h\<lparr>start := a', end' := a' + n\<rparr>)))
       - fst (start_end_strand (cb\<lparr>is_plus_strand := False\<rparr>) mirror_chunk_start
                 mirror_subregion_start (h\<lparr>start := a', end' := a' + n\<rparr>))
     = fst (snd (start_end_strand (cb\<lparr>is_plus_strand := True\<rparr>) chunk_start
                 subregion_start (h\<lparr>start := a, end' := a + n\<rparr>)))
       - fst (start_end_strand (cb\<lparr>is_plus_strand := True\<rparr>) chunk_start
                 subregion_start (h\<lparr>start := a, end' := a + n\<rparr>)) + 2"
  by (simp add: start_end_strand_def)

section \<open>Ordered, positive coordinates\<close>

text \<open>
  Claim C4, amended. Every hint the pipeline writes for a confident sub-region has
  \<open>gff_start \<le> gff_end\<close>, on either strand; the pre-hints come from the divvier, so each has
  \<open>start < end\<close>. On the forward strand \<open>gff_start\<close> is at least the chunk's offset plus 1, so
  both coordinates are at least 1 when the offset is not negative. On the reverse strand
  \<open>gff_start\<close> is at least the chunk's offset minus the number of rows of the chunk plus 2, so
  both coordinates are at least 1 when the offset is at least the number of rows minus 1.
\<close>

theorem emitted_coordinates_ordered_and_positive:
  assumes "(gff_start, gff_end, strand) \<in>
           set (main_hints args cb pred_chunk start_of_chunk start_conf end_conf)"
  shows "gff_start \<le> gff_end
    \<and> (is_plus_strand cb \<longrightarrow> start_of_chunk + 1 \<le> gff_start)
    \<and> (\<not> is_plus_strand cb \<longrightarrow> start_of_chunk - int (length pred_chunk) + 2 \<le> gff_start)
    \<and> (is_plus_strand cb \<and> 0 \<le> start_of_chunk \<longrightarrow> 1 \<le> gff_start \<and> 1 \<le> gff_end)
    \<and> (\<not> is_plus_strand cb \<and> int (length pred_chunk) \<le> start_of_chunk + 1
          \<longrightarrow> 1 \<le> gff_start \<and> 1 \<le> gff_end)"
proof -
  let ?occ = "take (end_conf - start_conf) (drop start_conf pred_chunk)"
  obtain h where h: "h \<in> set (fst (divvy_by_confidence ?occ (hint_step_key args) (pad args) (1 / 10)))"
    and res: "(gff_start, gff_end, strand) = start_end_strand cb start_of_chunk (int start_conf) h"
    using assms by (auto simp: main_hints_def main_pre_hints_def)
  have b: "start h < end' h" "end' h + 2 \<le> length ?occ"
    using divvy_hint_bounds [OF h] by simp_all
  have "length ?occ \<le> length pred_chunk - start_conf" by simp
  then have fit: "int start_conf + int (end' h) + 2 \<le> int (length pred_chunk)"
    using b(2) by linarith
  show ?thesis
  proof (cases "is_plus_strand cb")
    case True
    then have "gff_start = start_of_chunk + int start_conf + int (start h) + 1"
      "gff_end = start_of_chunk + int start_conf + int (end' h)"
      using res by (simp_all add: start_end_strand_def)
    then show ?thesis using True b(1) by simp
  next
    case False
    then have "gff_start = start_of_chunk - int start_conf - int (end' h)"
      "gff_end = start_of_chunk - int start_conf - int (start h) + 1"
      using res by (simp_all add: start_end_strand_def)
    then show ?thesis using False b(1) fit by simp
  qed
qed

theorem emitted_coordinates_ordered_and_positive_witness:
  "(1016, 1019, CHR ''-'') \<in> set (main_hints
        \<lparr>step_genicpart = 10, max_genicpart_size = 500, step_irpart = 100,
         max_irpart_size = 10000, pad = 2, stability_threshold = 1 / 10\<rparr>
        \<lparr>seqid = ''chr1'', start_i = 0, end_i = 6, is_plus_strand = False\<rparr>
        [[1, 0, 0, 0], [1, 0, 0, 0], [1, 0, 0, 0], [1, 0, 0, 0], [1, 0, 0, 0], [1, 0, 0, 0]]
        1020 0 6)
   \<and> int (length [[1, 0, 0, 0], [1, 0, 0, 0], [1, 0, 0, 0], [1, 0, 0, 0], [1, 0, 0, 0],
                   [1::real, 0, 0, 0]]) \<le> 1020 + 1
   \<and> (1016::int) \<le> 1019 \<and> (1020::int) - 6 + 2 \<le> 1016 \<and> (1::int) \<le> 1016
   \<and> (1003, 1004, CHR ''+'') \<in> set (main_hints
        \<lparr>step_genicpart = 10, max_genicpart_size = 500, step_irpart = 100,
         max_irpart_size = 10000, pad = 2, stability_threshold = 1 / 10\<rparr>
        \<lparr>seqid = ''chr1'', start_i = 0, end_i = 6, is_plus_strand = True\<rparr>
        [[1, 0, 0, 0], [1, 0, 0, 0], [1, 0, 0, 0], [1, 0, 0, 0], [1, 0, 0, 0], [1, 0, 0, 0]]
        1000 0 6)
   \<and> (0::int) \<le> 1000
   \<and> (1003::int) \<le> 1004 \<and> (1000::int) + 1 \<le> 1003 \<and> (1::int) \<le> 1003"
proof -
  let ?chunk = "[[1, 0, 0, 0], [1, 0, 0, 0], [1, 0, 0, 0], [1, 0, 0, 0], [1, 0, 0, 0],
                 [1::real, 0, 0, 0]]"
  let ?args = "\<lparr>step_genicpart = 10, max_genicpart_size = 500, step_irpart = 100,
         max_irpart_size = 10000, pad = 2, stability_threshold = 1 / 10\<rparr>"
  let ?minus = "\<lparr>seqid = ''chr1'', start_i = 0, end_i = 6, is_plus_strand = False\<rparr>"
  let ?plus = "\<lparr>seqid = ''chr1'', start_i = 0, end_i = 6, is_plus_strand = True\<rparr>"
  have m: "main_hints ?args ?minus ?chunk 1020 0 6 = [(1016, 1019, CHR ''-'')]"
    by code_simp
  have p: "main_hints ?args ?plus ?chunk 1000 0 6 = [(1003, 1004, CHR ''+'')]"
    by code_simp
  have hm: "(1016, 1019, CHR ''-'') \<in> set (main_hints ?args ?minus ?chunk 1020 0 6)"
    unfolding m by simp
  have hp: "(1003, 1004, CHR ''+'') \<in> set (main_hints ?args ?plus ?chunk 1000 0 6)"
    unfolding p by simp
  show ?thesis
    using emitted_coordinates_ordered_and_positive [OF hm]
          emitted_coordinates_ordered_and_positive [OF hp] hm hp
    by simp
qed

text \<open>
  Claim C4 as stated, for every hint of either strand, fails on the reverse strand for a chunk
  read at offset 0: the only pre-hint of this sub-region of 6 rows is \<open>[2, 4)\<close>, with
  \<open>start < end\<close>, and the hint written for it is \<open>(-4, -1)\<close>.
\<close>

theorem emitted_coordinates_counterexample:
  "main_hints
        \<lparr>step_genicpart = 10, max_genicpart_size = 500, step_irpart = 100,
         max_irpart_size = 10000, pad = 2, stability_threshold = 1 / 10\<rparr>
        \<lparr>seqid = ''chr1'', start_i = 0, end_i = 6, is_plus_strand = False\<rparr>
        [[1, 0, 0, 0], [1, 0, 0, 0], [1, 0, 0, 0], [1, 0, 0, 0], [1, 0, 0, 0], [1, 0, 0, 0]]
        0 0 6 = [(- 4, - 1, CHR ''-'')]
   \<and> fst (divvy_by_confidence
        [[1, 0, 0, 0], [1, 0, 0, 0], [1, 0, 0, 0], [1, 0, 0, 0], [1, 0, 0, 0], [1, 0, 0, 0]]
        [(100, 100), (10, 10), (10, 10), (10, 10)] 2 (1 / 10))
       = [\<lparr>category = 0, start = 2, end' = 4, confidence = 1\<rparr>]
   \<and> \<not> (1::int) \<le> - 4 \<and> \<not> (1::int) \<le> - 1"
proof -
  have a: "main_hints
        \<lparr>step_genicpart = 10, max_genicpart_size = 500, step_irpart = 100,
         max_irpart_size = 10000, pad = 2, stability_threshold = 1 / 10\<rparr>
        \<lparr>seqid = ''chr1'', start_i = 0, end_i = 6, is_plus_strand = False\<rparr>
        [[1, 0, 0, 0], [1, 0, 0, 0], [1, 0, 0, 0], [1, 0, 0, 0], [1, 0, 0, 0], [1, 0, 0, 0]]
        0 0 6 = [(- 4, - 1, CHR ''-'')]"
    by code_simp
  have b: "fst (divvy_by_confidence
        [[1, 0, 0, 0], [1, 0, 0, 0], [1, 0, 0, 0], [1, 0, 0, 0], [1, 0, 0, 0], [1, 0, 0, 0]]
        [(100, 100), (10, 10), (10, 10), (10, 10)] 2 (1 / 10))
       = [\<lparr>category = 0, start = 2, end' = 4, confidence = 1\<rparr>]"
    by code_simp
  show ?thesis using a b by simp
qed

section \<open>Coverage of the padded region\<close>

text \<open>
  Claim C5, amended. For a sub-region of \<open>n > 2 * pad\<close> rows, with \<open>pad \<ge> 2\<close> and a positive
  step for the main class, the divvier ends without error and its pre-hints are non-empty
  ranges in increasing order, each starting where the previous one ends, the first at
  \<open>pad\<close> and the last ending at \<open>n - pad\<close>; they are pairwise disjoint and their union is
  exactly \<open>[pad, n - pad)\<close>.
\<close>

theorem divvy_covers_padded_region:
  assumes "2 \<le> p" and "2 * p < length chunk"
    and "np_argmax (chunk ! 0) = Inr c"
    and "np_index step_key c = Inr (min_step, max_size)"
    and "0 < min_step"
  shows "\<exists>hs. divvy_by_confidence chunk step_key p thr = (hs, None) \<and> hs \<noteq> []
    \<and> start (hd hs) = p \<and> end' (last hs) = length chunk - p
    \<and> (\<forall>k. Suc k < length hs \<longrightarrow> end' (hs ! k) = start (hs ! Suc k))
    \<and> (\<forall>h \<in> set hs. start h < end' h)
    \<and> (\<forall>i j. i < j \<and> j < length hs \<longrightarrow> end' (hs ! i) \<le> start (hs ! j))
    \<and> (\<Union>h \<in> set hs. {start h..<end' h}) = {p..<length chunk - p}"
proof -
  let ?col = "class_column chunk c"
  let ?cds = "cumulative_diffs_of ?col"
  let ?pse = "length chunk - p"
  have len: "length ?cds = length chunk - 1"
    by (simp add: length_cumulative_diffs_of length_class_column)
  have row0: "np_index chunk 0 = Inr (chunk ! 0)" using assms(2) by (auto simp: np_index_def)
  have cd0: "np_index ?cds p = Inr (?cds ! p)" using assms(1,2) len by (simp add: np_index_def)
  let ?run = "divvy_loop ?col ?cds c min_step max_size thr ?pse p p (?cds ! p)"
  have run: "divvy_by_confidence chunk step_key p thr = ?run"
    by (rule divvy_by_confidence_run [OF row0 assms(3,4) cd0 assms(5)])
  have inb: "?pse < length ?cds" using assms(1,2) len by simp
  have lt: "p < ?pse" using assms(2) by simp
  have compl: "snd ?run = None" "fst ?run \<noteq> []" "end' (last (fst ?run)) = ?pse"
    using divvy_loop_complete [OF assms(5) inb, of ?col c max_size thr p p "?cds ! p"] lt
    by simp_all
  have lk: "linked p (fst ?run)"
    using divvy_loop_linked [of p p ?col ?cds c min_step max_size thr ?pse "?cds ! p"] by simp
  have eq: "divvy_by_confidence chunk step_key p thr = (fst ?run, None)"
    using run compl(1) by (simp add: prod_eq_iff)
  have 1: "start (hd (fst ?run)) = p" using linked_hd [OF lk compl(2)] .
  have 2: "\<forall>k. Suc k < length (fst ?run) \<longrightarrow> end' (fst ?run ! k) = start (fst ?run ! Suc k)"
    using linked_nth [OF lk] by blast
  have 3: "\<forall>h \<in> set (fst ?run). start h < end' h"
    using linked_set [OF lk] by blast
  have 4: "\<forall>i j. i < j \<and> j < length (fst ?run) \<longrightarrow> end' (fst ?run ! i) \<le> start (fst ?run ! j)"
    using linked_ordered [OF lk] by blast
  have 5: "(\<Union>h \<in> set (fst ?run). {start h..<end' h}) = {p..<?pse}"
    using linked_union [OF lk compl(2)] compl(3) by simp
  show ?thesis
    using eq compl(2) 1 compl(3) 2 3 4 5 by blast
qed

theorem divvy_covers_padded_region_witness:
  "(2::nat) \<le> 2
   \<and> 2 * 2 < length [[1, 0, 0, 0], [1, 0, 0, 0], [1, 0, 0, 0], [1, 0, 0, 0], [1, 0, 0, 0],
                      [1::real, 0, 0, 0]]
   \<and> np_argmax ([[1, 0, 0, 0], [1, 0, 0, 0], [1, 0, 0, 0], [1, 0, 0, 0], [1, 0, 0, 0],
                      [1::real, 0, 0, 0]] ! 0) = Inr 0
   \<and> np_index [(1, 20), (1, 20), (1, 20), (1::nat, 20::int)] 0 = Inr (1, 20)
   \<and> (\<exists>hs. divvy_by_confidence
               [[1, 0, 0, 0], [1, 0, 0, 0], [1, 0, 0, 0], [1, 0, 0, 0], [1, 0, 0, 0],
                [1, 0, 0, 0]] [(1, 20), (1, 20), (1, 20), (1, 20)] 2 (1 / 10) = (hs, None)
          \<and> hs \<noteq> [] \<and> start (hd hs) = 2 \<and> end' (last hs) = 4
          \<and> (\<Union>h \<in> set hs. {start h..<end' h}) = {2..<4})"
proof -
  let ?chunk = "[[1, 0, 0, 0], [1, 0, 0, 0], [1, 0, 0, 0], [1, 0, 0, 0], [1, 0, 0, 0],
                 [1::real, 0, 0, 0]]"
  let ?key = "[(1, 20), (1, 20), (1, 20), (1::nat, 20::int)]"
  have h1: "(2::nat) \<le> 2" by simp
  have h2: "2 * 2 < length ?chunk" by simp
  have h3: "np_argmax (?chunk ! 0) = Inr 0" by (simp add: np_argmax_def)
  have h4: "np_index ?key 0 = Inr (1, 20)" by (simp add: np_index_def)
  have h5: "(0::nat) < 1" by simp
  show ?thesis
    using divvy_covers_padded_region [OF h1 h2 h3 h4 h5, of "1 / 10"] h3 h4
    by auto
qed

text \<open>
  Claim C5 as stated, for every \<open>n > 2 * pad\<close>, fails at \<open>pad = 1\<close>, \<open>n = 3\<close>: the read of the
  running sum at the padded end raises before any pre-hint is yielded.
\<close>

theorem divvy_small_pad_counterexample:
  "divvy_by_confidence [[1, 0, 0, 0], [1, 0, 0, 0], [1, 0, 0, 0]]
      [(1, 20), (1, 20), (1, 20), (1, 20)] 1 (1 / 10) = ([], Some (IndexError 2))
   \<and> 2 * 1 < length [[1, 0, 0, 0], [1, 0, 0, 0], [1::real, 0, 0, 0]]
   \<and> (\<Union>h \<in> set (fst (divvy_by_confidence [[1, 0, 0, 0], [1, 0, 0, 0], [1, 0, 0, 0]]
          [(1, 20), (1, 20), (1, 20), (1, 20)] 1 (1 / 10))). {start h..<end' h})
       \<noteq> {1..<length [[1, 0, 0, 0], [1, 0, 0, 0], [1::real, 0, 0, 0]] - 1}"
proof -
  have e: "divvy_by_confidence [[1, 0, 0, 0], [1, 0, 0, 0], [1, 0, 0, 0]]
      [(1, 20), (1, 20), (1, 20), (1, 20)] 1 (1 / 10) = ([], Some (IndexError 2))"
    by code_simp
  show ?thesis unfolding e by simp
qed

section \<open>Volatility of a closed pre-hint\<close>

text \<open>
  Claim C6, amended. Let a pre-hint \<open>[s, e)\<close> be followed by another one in the same
  sub-region. The divvier measures the change since \<open>s\<close> at a boundary \<open>b\<close> as
  \<open>cumulative_diffs[b] - cumulative_diffs[s]\<close>, which is the cumulative absolute change of
  the main class's probability over the rows \<open>s + 1\<close> to \<open>b + 1\<close>. At every candidate boundary
  \<open>b = s + j * min_step\<close> strictly inside the pre-hint that change does not exceed the
  threshold and \<open>b - s\<close> does not exceed \<open>max_size\<close>; at its end \<open>e\<close> the change exceeds the
  threshold or \<open>e - s\<close> exceeds \<open>max_size\<close>, which is why it was closed there.
\<close>

theorem volatility_bound_at_candidate_boundaries:
  assumes "np_argmax (chunk ! 0) = Inr c"
    and "np_index step_key c = Inr (min_step, max_size)"
    and "Suc k < length (fst (divvy_by_confidence chunk step_key p thr))"
    and "h = fst (divvy_by_confidence chunk step_key p thr) ! k"
  shows "(\<forall>j. 0 < j \<and> start h + j * min_step < end' h \<longrightarrow>
            span_change (class_column chunk c) (Suc (start h)) (start h + j * min_step + 2) \<le> thr
            \<and> int (j * min_step) \<le> max_size)
       \<and> (span_change (class_column chunk c) (Suc (start h)) (end' h + 2) > thr
            \<or> int (end' h) - int (start h) > max_size)"
proof -
  let ?col = "class_column chunk c"
  let ?cds = "cumulative_diffs_of ?col"
  let ?pse = "length chunk - p"
  let ?hs = "fst (divvy_by_confidence chunk step_key p thr)"
  have ne: "?hs \<noteq> []" using assms(3) by auto
  obtain c' min_step' max_size' cd0 where
    r: "np_argmax (chunk ! 0) = Inr c'" "np_index step_key c' = Inr (min_step', max_size')"
       "np_index (cumulative_diffs_of (class_column chunk c')) p = Inr cd0" "0 < min_step'"
       "divvy_by_confidence chunk step_key p thr =
        divvy_loop (class_column chunk c') (cumulative_diffs_of (class_column chunk c')) c'
          min_step' max_size' thr (length chunk - p) p p cd0"
    using divvy_by_confidence_cases [of chunk step_key p thr] ne by auto
  have same: "c' = c" "min_step' = min_step" "max_size' = max_size"
    using r(1,2) assms(1,2) by simp_all
  have cd0: "cd0 = ?cds ! p" using np_index_InrD [OF r(3)] same by simp
  have run: "?hs = fst (divvy_loop ?col ?cds c min_step max_size thr ?pse p p (?cds ! p))"
    using r(5) same cd0 by simp
  have pos: "0 < min_step" using r(4) same by simp
  have hk: "h \<in> set ?hs" "?hs ! Suc k \<in> set ?hs" using assms(3,4) by simp_all
  have lk: "linked p ?hs"
    and bd: "\<forall>h \<in> set ?hs. end' h \<le> ?pse \<and> end' h < length ?cds"
    using divvy_loop_linked [of p p ?col ?cds c min_step max_size thr ?pse "?cds ! p"]
    unfolding run by simp_all
  have lt: "start h < end' h" using linked_set [OF lk hk(1)] by simp
  have "end' h = start (?hs ! Suc k)" using linked_nth [OF lk assms(3)] assms(4) by simp
  also have "\<dots> < end' (?hs ! Suc k)" using linked_set [OF lk hk(2)] by simp
  also have "\<dots> \<le> ?pse" using bd hk(2) by blast
  finally have notlast: "end' h \<noteq> ?pse" by simp
  have inb: "end' h + 1 < length ?col"
    using bd hk(1) by (auto simp: length_cumulative_diffs_of)
  have vol: "(\<forall>j. 0 < j \<and> start h + j * min_step < end' h \<longrightarrow>
          ?cds ! (start h + j * min_step) - ?cds ! start h \<le> thr \<and> int (j * min_step) \<le> max_size)
      \<and> (end' h \<noteq> ?pse \<longrightarrow>
          ?cds ! end' h - ?cds ! start h > thr \<or> int (end' h) - int (start h) > max_size)"
  proof -
    have 1: "\<exists>j0. p = p + j0 * min_step" by simp
    have 2: "\<forall>j. 0 < j \<and> p + j * min_step \<le> p \<longrightarrow>
         ?cds ! (p + j * min_step) - ?cds ! p \<le> thr \<and> int (j * min_step) \<le> max_size"
      using pos by simp
    show ?thesis
      using divvy_loop_volatility [OF 1 refl 2, of ?col c ?pse] hk(1) unfolding run by blast
  qed
  have inner: "span_change ?col (Suc (start h)) (start h + j * min_step + 2) \<le> thr
            \<and> int (j * min_step) \<le> max_size" if "0 < j \<and> start h + j * min_step < end' h" for j
  proof -
    have eq: "?cds ! (start h + j * min_step) - ?cds ! start h
        = span_change ?col (Suc (start h)) (start h + j * min_step + 2)"
      using that inb by (intro cumulative_diffs_window) simp_all
    have "?cds ! (start h + j * min_step) - ?cds ! start h \<le> thr \<and> int (j * min_step) \<le> max_size"
      using vol that by blast
    then show ?thesis unfolding eq .
  qed
  have eq: "?cds ! end' h - ?cds ! start h = span_change ?col (Suc (start h)) (end' h + 2)"
    using lt inb by (intro cumulative_diffs_window) simp_all
  have "?cds ! end' h - ?cds ! start h > thr \<or> int (end' h) - int (start h) > max_size"
    using vol notlast by blast
  then have closed: "span_change ?col (Suc (start h)) (end' h + 2) > thr
            \<or> int (end' h) - int (start h) > max_size"
    unfolding eq .
  show ?thesis using inner closed by blast
qed

theorem volatility_bound_at_candidate_boundaries_witness:
  "np_argmax ([[1, 0, 0, 0], [1, 0, 0, 0], [1, 0, 0, 0], [1, 0, 0, 0], [1, 0, 0, 0],
       [3 / 4, 1 / 4, 0, 0], [1, 0, 0, 0], [1, 0, 0, 0], [1, 0, 0, 0], [1, 0, 0, 0]] ! 0) = Inr 0
   \<and> np_index [(1, 100), (1, 100), (1, 100), (1::nat, 100::int)] 0 = Inr (1, 100)
   \<and> Suc 0 < length (fst (divvy_by_confidence [[1, 0, 0, 0], [1, 0, 0, 0], [1, 0, 0, 0], [1, 0, 0, 0], [1, 0, 0, 0],
       [3 / 4, 1 / 4, 0, 0], [1, 0, 0, 0], [1, 0, 0, 0], [1, 0, 0, 0], [1, 0, 0, 0]] [(1, 100), (1, 100), (1, 100), (1, 100)] 2 (1 / 10)))
   \<and> fst (divvy_by_confidence [[1, 0, 0, 0], [1, 0, 0, 0], [1, 0, 0, 0], [1, 0, 0, 0], [1, 0, 0, 0],
       [3 / 4, 1 / 4, 0, 0], [1, 0, 0, 0], [1, 0, 0, 0], [1, 0, 0, 0], [1, 0, 0, 0]] [(1, 100), (1, 100), (1, 100), (1, 100)] 2 (1 / 10)) ! 0
       = \<lparr>category = 0, start = 2, end' = 4, confidence = 1\<rparr>
   \<and> span_change (class_column [[1, 0, 0, 0], [1, 0, 0, 0], [1, 0, 0, 0], [1, 0, 0, 0], [1, 0, 0, 0],
       [3 / 4, 1 / 4, 0, 0], [1, 0, 0, 0], [1, 0, 0, 0], [1, 0, 0, 0], [1, 0, 0, 0]] 0) 3 5 \<le> 1 / 10
   \<and> (span_change (class_column [[1, 0, 0, 0], [1, 0, 0, 0], [1, 0, 0, 0], [1, 0, 0, 0], [1, 0, 0, 0],
       [3 / 4, 1 / 4, 0, 0], [1, 0, 0, 0], [1, 0, 0, 0], [1, 0, 0, 0], [1, 0, 0, 0]] 0) 3 6 > 1 / 10 \<or> int 4 - int 2 > 100)"
proof -
  let ?chunk = "[[1, 0, 0, 0], [1, 0, 0, 0], [1, 0, 0, 0], [1, 0, 0, 0], [1, 0, 0, 0],
       [3 / 4, 1 / 4, 0, 0], [1, 0, 0, 0], [1, 0, 0, 0], [1, 0, 0, 0], [1, 0, 0, 0]]"
  let ?key = "[(1, 100), (1, 100), (1, 100), (1, 100)] :: (nat \<times> int) list"
  have hs: "fst (divvy_by_confidence ?chunk ?key 2 (1 / 10)) =
      [\<lparr>category = 0, start = 2, end' = 4, confidence = 1\<rparr>,
       \<lparr>category = 0, start = 4, end' = 5, confidence = 1\<rparr>,
       \<lparr>category = 0, start = 5, end' = 8, confidence = 11 / 12\<rparr>]"
    by code_simp
  have h1: "np_argmax (?chunk ! 0) = Inr 0" by (simp add: np_argmax_def)
  have h2: "np_index ?key 0 = Inr (1, 100)" by (simp add: np_index_def)
  have h3: "Suc 0 < length (fst (divvy_by_confidence ?chunk ?key 2 (1 / 10)))"
    unfolding hs by simp
  have h4: "\<lparr>category = 0, start = 2, end' = 4, confidence = 1\<rparr>
      = fst (divvy_by_confidence ?chunk ?key 2 (1 / 10)) ! 0"
    unfolding hs by simp
  note t = volatility_bound_at_candidate_boundaries [OF h1 h2 h3 h4]
  have a: "span_change (class_column ?chunk 0) 3 5 \<le> 1 / 10"
    using conjunct1 [OF t, THEN spec, of 1] by (simp add: numeral_eq_Suc)
  have b: "span_change (class_column ?chunk 0) 3 6 > 1 / 10 \<or> int 4 - int 2 > 100"
    using conjunct2 [OF t] by (simp add: numeral_eq_Suc)
  show ?thesis using h1 h2 h3 h4 [symmetric] a b by blast
qed

text \<open>
  Claim C6 as stated bounds the change across the span of the earlier pre-hint by the
  threshold unless its length has reached \<open>max_size\<close>. With \<open>pad = 2\<close>, step 2, \<open>max_size = 100\<close>
  and threshold \<open>0.1\<close>, the first of the two pre-hints of this sub-region is \<open>[2, 4)\<close>: the
  change across its rows is \<open>0.25\<close> and its length is 2.
\<close>

theorem volatility_bound_counterexample:
  "fst (divvy_by_confidence
      [[1, 0, 0, 0], [1, 0, 0, 0], [1, 0, 0, 0], [3 / 4, 1 / 4, 0, 0],
       [1, 0, 0, 0], [1, 0, 0, 0], [1, 0, 0, 0], [1, 0, 0, 0]]
      [(2, 100), (2, 100), (2, 100), (2, 100)] 2 (1 / 10))
     = [\<lparr>category = 0, start = 2, end' = 4, confidence = 7 / 8\<rparr>,
        \<lparr>category = 0, start = 4, end' = 6, confidence = 1\<rparr>]
   \<and> \<not> (span_change (class_column
            [[1, 0, 0, 0], [1, 0, 0, 0], [1, 0, 0, 0], [3 / 4, 1 / 4, 0, 0],
             [1, 0, 0, 0], [1, 0, 0, 0], [1, 0, 0, 0], [1, 0, 0, 0]] 0) 2 4 \<le> 1 / 10
         \<or> (100::int) \<le> int 4 - int 2)"
proof -
  have a: "fst (divvy_by_confidence
      [[1, 0, 0, 0], [1, 0, 0, 0], [1, 0, 0, 0], [3 / 4, 1 / 4, 0, 0],
       [1, 0, 0, 0], [1, 0, 0, 0], [1, 0, 0, 0], [1, 0, 0, 0]]
      [(2, 100), (2, 100), (2, 100), (2, 100)] 2 (1 / 10))
     = [\<lparr>category = 0, start = 2, end' = 4, confidence = 7 / 8\<rparr>,
        \<lparr>category = 0, start = 4, end' = 6, confidence = 1\<rparr>]"
    by code_simp
  have b: "span_change (class_column
            [[1, 0, 0, 0], [1, 0, 0, 0], [1, 0, 0, 0], [3 / 4, 1 / 4, 0, 0],
             [1, 0, 0, 0], [1, 0, 0, 0], [1, 0, 0, 0], [1, 0, 0, 0]] 0) 2 4 = 1 / 4"
    by code_simp
  show ?thesis unfolding a b by simp
qed

section \<open>Boundary lengths\<close>

text \<open>
  Claim C7. For \<open>pad \<ge> 2\<close> (and a positive step for the main class), a sub-region of exactly
  \<open>2 * pad\<close> rows yields no pre-hint and one of \<open>2 * pad + 1\<close> rows yields exactly one,
  \<open>[pad, pad + 1)\<close>; neither raises.
\<close>

theorem divvy_boundary_lengths:
  assumes "2 \<le> p"
    and "length short_chunk = 2 * p"
    and "np_argmax (short_chunk ! 0) = Inr c"
    and "np_index step_key c = Inr (min_step, max_size)"
    and "0 < min_step"
    and "length long_chunk = 2 * p + 1"
    and "np_argmax (long_chunk ! 0) = Inr c'"
    and "np_index step_key c' = Inr (min_step', max_size')"
    and "0 < min_step'"
  shows "divvy_by_confidence short_chunk step_key p thr = ([], None)
    \<and> (\<exists>h. divvy_by_confidence long_chunk step_key p thr = ([h], None)
          \<and> start h = p \<and> end' h = p + 1)"
proof -
  have short: "divvy_by_confidence short_chunk step_key p thr = ([], None)"
  proof -
    let ?cds = "cumulative_diffs_of (class_column short_chunk c)"
    have row0: "np_index short_chunk 0 = Inr (short_chunk ! 0)"
      using assms(1,2) by (simp add: np_index_def)
    have cd0: "np_index ?cds p = Inr (?cds ! p)"
      using assms(1,2) by (simp add: np_index_def length_cumulative_diffs_of length_class_column)
    show ?thesis
      using divvy_by_confidence_run [OF row0 assms(3,4) cd0 assms(5), of thr] assms(2)
      by (simp add: divvy_loop_stop)
  qed
  have long: "\<exists>h. divvy_by_confidence long_chunk step_key p thr = ([h], None)
          \<and> start h = p \<and> end' h = p + 1"
  proof -
    let ?col = "class_column long_chunk c'"
    let ?cds = "cumulative_diffs_of ?col"
    have len: "length ?cds = 2 * p"
      using assms(6) by (simp add: length_cumulative_diffs_of length_class_column)
    have row0: "np_index long_chunk 0 = Inr (long_chunk ! 0)"
      using assms(6) by (simp add: np_index_def)
    have cd0: "np_index ?cds p = Inr (?cds ! p)"
      using assms(1) len by (simp add: np_index_def)
    have pse: "length long_chunk - p = p + 1" using assms(6) by simp
    have e: "min (p + min_step') (p + 1) = p + 1" using assms(9) by simp
    have cd1: "np_index ?cds (min (p + min_step') (p + 1)) = Inr (?cds ! (p + 1))"
      unfolding e using assms(1) len by (simp add: np_index_def)
    have y: "divvy_loop ?col ?cds c' min_step' max_size' thr (p + 1) p p (?cds ! p) =
       (\<lparr>category = c', start = p, end' = min (p + min_step') (p + 1),
         confidence = np_mean (take (min (p + min_step') (p + 1) - p) (drop p ?col))\<rparr>
        # fst (divvy_loop ?col ?cds c' min_step' max_size' thr (p + 1) (p + min_step')
                 (min (p + min_step') (p + 1)) (?cds ! (p + 1))),
        snd (divvy_loop ?col ?cds c' min_step' max_size' thr (p + 1) (p + min_step')
                 (min (p + min_step') (p + 1)) (?cds ! (p + 1))))"
    proof (rule divvy_loop_yield [OF assms(9) _ cd1])
      show "p < p + 1" by simp
      show "thr < ?cds ! (p + 1) - ?cds ! p
          \<or> max_size' < int (min (p + min_step') (p + 1)) - int p
          \<or> min (p + min_step') (p + 1) = p + 1"
        using e by blast
    qed
    have stop: "divvy_loop ?col ?cds c' min_step' max_size' thr (p + 1) (p + min_step')
                 (min (p + min_step') (p + 1)) (?cds ! (p + 1)) = ([], None)"
      using assms(9) by (intro divvy_loop_stop) simp
    show ?thesis
      using divvy_by_confidence_run [OF row0 assms(7,8) cd0 assms(9), of thr]
      unfolding pse y stop using e by simp
  qed
  show ?thesis using short long by blast
qed

theorem divvy_boundary_lengths_witness:
  "(2::nat) \<le> 2
   \<and> length [[1, 0, 0, 0], [1, 0, 0, 0], [1, 0, 0, 0], [1::real, 0, 0, 0]] = 2 * 2
   \<and> length [[1, 0, 0, 0], [1, 0, 0, 0], [1, 0, 0, 0], [1, 0, 0, 0], [1::real, 0, 0, 0]]
       = 2 * 2 + 1
   \<and> np_index [(100, 100), (10, 10), (10, 10), (10::nat, 10::int)] 0 = Inr (100, 100)
   \<and> divvy_by_confidence [[1, 0, 0, 0], [1, 0, 0, 0], [1, 0, 0, 0], [1, 0, 0, 0]]
        [(100, 100), (10, 10), (10, 10), (10, 10)] 2 (1 / 10) = ([], None)
   \<and> (\<exists>h. divvy_by_confidence
              [[1, 0, 0, 0], [1, 0, 0, 0], [1, 0, 0, 0], [1, 0, 0, 0], [1, 0, 0, 0]]
              [(100, 100), (10, 10), (10, 10), (10, 10)] 2 (1 / 10) = ([h], None)
          \<and> start h = 2 \<and> end' h = 2 + 1)"
proof -
  let ?short = "[[1, 0, 0, 0], [1, 0, 0, 0], [1, 0, 0, 0], [1::real, 0, 0, 0]]"
  let ?long = "[[1, 0, 0, 0], [1, 0, 0, 0], [1, 0, 0, 0], [1, 0, 0, 0], [1::real, 0, 0, 0]]"
  let ?key = "[(100, 100), (10, 10), (10, 10), (10::nat, 10::int)]"
  have h1: "(2::nat) \<le> 2" by simp
  have h2: "length ?short = 2 * 2" by simp
  have h3: "np_argmax (?short ! 0) = Inr 0" by (simp add: np_argmax_def)
  have h4: "np_index ?key 0 = Inr (100, 100)" by (simp add: np_index_def)
  have h5: "(0::nat) < 100" by simp
  have h6: "length ?long = 2 * 2 + 1" by simp
  have h7: "np_argmax (?long ! 0) = Inr 0" by (simp add: np_argmax_def)
  show ?thesis
    using divvy_boundary_lengths [OF h1 h2 h3 h4 h5 h6 h7 h4 h5, of "1 / 10"] h1 h2 h6 h4
    by blast
qed

section \<open>Step and size policy\<close>

text \<open>
  Claim C8. The policy of category 0 should be the configured intergenic step and maximum
  size, that of categories 1 to 3 the configured genic step and maximum size. In \<open>main\<close>
  each pair is built from the step twice: with the parser's defaults the table is
  \<open>[(100, 100), (10, 10), (10, 10), (10, 10)]\<close>, not \<open>(100, 10000)\<close> and \<open>(10, 500)\<close>, and the
  two maximum-size options never reach it.
\<close>

theorem step_key_ignores_max_sizes:
  "hint_step_key \<lparr>step_genicpart = 10, max_genicpart_size = 500, step_irpart = 100,
        max_irpart_size = 10000, pad = 5, stability_threshold = 1 / 10\<rparr>
     = [(100, 100), (10, 10), (10, 10), (10, 10)]
   \<and> np_index (hint_step_key \<lparr>step_genicpart = 10, max_genicpart_size = 500,
        step_irpart = 100, max_irpart_size = 10000, pad = 5, stability_threshold = 1 / 10\<rparr>) 0
       \<noteq> Inr (100, 10000)
   \<and> np_index (hint_step_key \<lparr>step_genicpart = 10, max_genicpart_size = 500,
        step_irpart = 100, max_irpart_size = 10000, pad = 5, stability_threshold = 1 / 10\<rparr>) 1
       \<noteq> Inr (10, 500)
   \<and> hint_step_key (args\<lparr>max_irpart_size := a, max_genicpart_size := b\<rparr>) = hint_step_key args"
  by (simp add: hint_step_key_def np_index_def Let_def)

section \<open>Stability threshold\<close>

text \<open>
  Claim C9. The threshold the divvier compares against should be the configured
  \<open>--stability-threshold\<close>. \<open>main\<close> never passes it: whatever is configured, the pre-hints
  are those for \<open>0.1\<close>. With a configured threshold of 10, step 2 and \<open>pad = 2\<close>, an
  alternating sub-region of 12 rows is cut into four pre-hints, where the configured
  threshold would give two.
\<close>

theorem configured_threshold_not_used:
  "main_pre_hints (args\<lparr>stability_threshold := t\<rparr>) chunk = main_pre_hints args chunk
   \<and> fst (main_pre_hints \<lparr>step_genicpart = 10, max_genicpart_size = 500, step_irpart = 2,
        max_irpart_size = 10000, pad = 2, stability_threshold = 10\<rparr>
      [[1, 0, 0, 0], [3 / 4, 1 / 4, 0, 0], [1, 0, 0, 0], [3 / 4, 1 / 4, 0, 0],
       [1, 0, 0, 0], [3 / 4, 1 / 4, 0, 0], [1, 0, 0, 0], [3 / 4, 1 / 4, 0, 0],
       [1, 0, 0, 0], [3 / 4, 1 / 4, 0, 0], [1, 0, 0, 0], [3 / 4, 1 / 4, 0, 0]])
     = [\<lparr>category = 0, start = 2, end' = 4, confidence = 7 / 8\<rparr>,
        \<lparr>category = 0, start = 4, end' = 6, confidence = 7 / 8\<rparr>,
        \<lparr>category = 0, start = 6, end' = 8, confidence = 7 / 8\<rparr>,
        \<lparr>category = 0, start = 8, end' = 10, confidence = 7 / 8\<rparr>]
   \<and> fst (divvy_by_confidence
      [[1, 0, 0, 0], [3 / 4, 1 / 4, 0, 0], [1, 0, 0, 0], [3 / 4, 1 / 4, 0, 0],
       [1, 0, 0, 0], [3 / 4, 1 / 4, 0, 0], [1, 0, 0, 0], [3 / 4, 1 / 4, 0, 0],
       [1, 0, 0, 0], [3 / 4, 1 / 4, 0, 0], [1, 0, 0, 0], [3 / 4, 1 / 4, 0, 0]]
      (hint_step_key \<lparr>step_genicpart = 10, max_genicpart_size = 500, step_irpart = 2,
        max_irpart_size = 10000, pad = 2, stability_threshold = 10\<rparr>) 2 10)
     = [\<lparr>category = 0, start = 2, end' = 6, confidence = 7 / 8\<rparr>,
        \<lparr>category = 0, start = 6, end' = 10, confidence = 7 / 8\<rparr>]"
proof -
  have a: "main_pre_hints (args\<lparr>stability_threshold := t\<rparr>) chunk = main_pre_hints args chunk"
    by (simp add: main_pre_hints_def hint_step_key_def)
  have b: "fst (main_pre_hints \<lparr>step_genicpart = 10, max_genicpart_size = 500, step_irpart = 2,
        max_irpart_size = 10000, pad = 2, stability_threshold = 10\<rparr>
      [[1, 0, 0, 0], [3 / 4, 1 / 4, 0, 0], [1, 0, 0, 0], [3 / 4, 1 / 4, 0, 0],
       [1, 0, 0, 0], [3 / 4, 1 / 4, 0, 0], [1, 0, 0, 0], [3 / 4, 1 / 4, 0, 0],
       [1, 0, 0, 0], [3 / 4, 1 / 4, 0, 0], [1, 0, 0, 0], [3 / 4, 1 / 4, 0, 0]])
     = [\<lparr>category = 0, start = 2, end' = 4, confidence = 7 / 8\<rparr>,
        \<lparr>category = 0, start = 4, end' = 6, confidence = 7 / 8\<rparr>,
        \<lparr>category = 0, start = 6, end' = 8, confidence = 7 / 8\<rparr>,
        \<lparr>category = 0, start = 8, end' = 10, confidence = 7 / 8\<rparr>]"
    by code_simp
  have c: "fst (divvy_by_confidence
      [[1, 0, 0, 0], [3 / 4, 1 / 4, 0, 0], [1, 0, 0, 0], [3 / 4, 1 / 4, 0, 0],
       [1, 0, 0, 0], [3 / 4, 1 / 4, 0, 0], [1, 0, 0, 0], [3 / 4, 1 / 4, 0, 0],
       [1, 0, 0, 0], [3 / 4, 1 / 4, 0, 0], [1, 0, 0, 0], [3 / 4, 1 / 4, 0, 0]]
      (hint_step_key \<lparr>step_genicpart = 10, max_genicpart_size = 500, step_irpart = 2,
        max_irpart_size = 10000, pad = 2, stability_threshold = 10\<rparr>) 2 10)
     = [\<lparr>category = 0, start = 2, end' = 6, confidence = 7 / 8\<rparr>,
        \<lparr>category = 0, start = 6, end' = 10, confidence = 7 / 8\<rparr>]"
    by code_simp
  show ?thesis using a b c by blast
qed

section \<open>Reads of the running sum\<close>

text \<open>Unfolding the list of reads along the four ways an iteration can go.\<close>

declare divvy_loop_reads.simps [simp del]

lemma divvy_loop_reads_stop:
  "min_step = 0 \<or> pse \<le> i \<Longrightarrow>
   divvy_loop_reads cds min_step max_size thr pse i last_end cdl = []"
  by (subst divvy_loop_reads.simps) simp

lemma divvy_loop_reads_error:
  "0 < min_step \<Longrightarrow> i < pse \<Longrightarrow> np_index cds (min (i + min_step) pse) = Inl err \<Longrightarrow>
   divvy_loop_reads cds min_step max_size thr pse i last_end cdl = [min (i + min_step) pse]"
  by (subst divvy_loop_reads.simps) simp

lemma divvy_loop_reads_yield:
  "0 < min_step \<Longrightarrow> i < pse \<Longrightarrow> np_index cds (min (i + min_step) pse) = Inr cd \<Longrightarrow>
   cd - cdl > thr \<or> int (min (i + min_step) pse) - int last_end > max_size
     \<or> min (i + min_step) pse = pse \<Longrightarrow>
   divvy_loop_reads cds min_step max_size thr pse i last_end cdl =
     min (i + min_step) pse # min (i + min_step) pse #
     divvy_loop_reads cds min_step max_size thr pse (i + min_step) (min (i + min_step) pse) cd"
  by (subst divvy_loop_reads.simps) (simp add: Let_def)

lemma divvy_loop_reads_skip:
  "0 < min_step \<Longrightarrow> i < pse \<Longrightarrow> np_index cds (min (i + min_step) pse) = Inr cd \<Longrightarrow>
   \<not> (cd - cdl > thr \<or> int (min (i + min_step) pse) - int last_end > max_size
     \<or> min (i + min_step) pse = pse) \<Longrightarrow>
   divvy_loop_reads cds min_step max_size thr pse i last_end cdl =
     min (i + min_step) pse #
     divvy_loop_reads cds min_step max_size thr pse (i + min_step) last_end cdl"
  by (subst divvy_loop_reads.simps) (simp add: Let_def)

lemma divvy_loop_reads_range:
  "\<forall>b \<in> set (divvy_loop_reads cds min_step max_size thr pse i last_end cdl). i < b \<and> b \<le> pse"
proof (induction i last_end cdl
    rule: divvy_loop_rule [where min_step = min_step and pse = pse and cds = cds
                             and thr = thr and max_size = max_size])
  case (stop i last_end cdl)
  then show ?case by (simp add: divvy_loop_reads_stop)
next
  case (error i last_end cdl err)
  then show ?case by (simp add: divvy_loop_reads_error)
next
  case (yield i last_end cdl cd)
  have e: "i < min (i + min_step) pse" "min (i + min_step) pse \<le> pse"
    using yield(1,2) by simp_all
  have "\<forall>b \<in> set (divvy_loop_reads cds min_step max_size thr pse (i + min_step)
                    (min (i + min_step) pse) cd). i < b \<and> b \<le> pse"
    using yield.IH by fastforce
  then show ?case
    unfolding divvy_loop_reads_yield [OF yield(1-4)] list.set using e by blast
next
  case (skip i last_end cdl cd)
  have e: "i < min (i + min_step) pse" "min (i + min_step) pse \<le> pse"
    using skip(1,2) by simp_all
  have "\<forall>b \<in> set (divvy_loop_reads cds min_step max_size thr pse (i + min_step)
                    last_end cdl). i < b \<and> b \<le> pse"
    using skip.IH by fastforce
  then show ?case
    unfolding divvy_loop_reads_skip [OF skip(1-4)] list.set using e by blast
qed

lemma divvy_loop_reads_last:
  assumes "0 < min_step" and "pse < length cds"
  shows "i < pse \<Longrightarrow>
    divvy_loop_reads cds min_step max_size thr pse i last_end cdl \<noteq> [] \<and>
    last (divvy_loop_reads cds min_step max_size thr pse i last_end cdl) = pse"
proof (induction i last_end cdl
    rule: divvy_loop_rule [where min_step = min_step and pse = pse and cds = cds
                             and thr = thr and max_size = max_size])
  case (stop i last_end cdl)
  then show ?case using assms by simp
next
  case (error i last_end cdl err)
  then show ?case using assms by (auto simp: np_index_def split: if_splits)
next
  case (yield i last_end cdl cd)
  show ?case
  proof (cases "i + min_step < pse")
    case True
    then show ?thesis unfolding divvy_loop_reads_yield [OF yield(1-4)] using yield.IH by simp
  next
    case False
    then show ?thesis unfolding divvy_loop_reads_yield [OF yield(1-4)]
      by (simp add: divvy_loop_reads_stop)
  qed
next
  case (skip i last_end cdl cd)
  have "i + min_step < pse" using skip(4) by (simp add: min_def split: if_splits)
  then show ?case unfolding divvy_loop_reads_skip [OF skip(1-4)] using skip.IH by simp
qed

lemma divvy_loop_reads_candidates:
  assumes "0 < min_step" and "pse < length cds"
  shows "\<forall>k. i + Suc k * min_step \<le> pse \<longrightarrow>
    i + Suc k * min_step \<in> set (divvy_loop_reads cds min_step max_size thr pse i last_end cdl)"
proof (induction i last_end cdl
    rule: divvy_loop_rule [where min_step = min_step and pse = pse and cds = cds
                             and thr = thr and max_size = max_size])
  case (stop i last_end cdl)
  then show ?case using assms(1) by auto
next
  case (error i last_end cdl err)
  then show ?case using assms by (auto simp: np_index_def split: if_splits)
next
  case (yield i last_end cdl cd)
  show ?case
  proof (intro allI impI)
    fix k assume k: "i + Suc k * min_step \<le> pse"
    show "i + Suc k * min_step \<in> set (divvy_loop_reads cds min_step max_size thr pse i last_end cdl)"
    proof (cases k)
      case 0
      then have eq: "i + Suc k * min_step = min (i + min_step) pse" using k by simp
      show ?thesis unfolding divvy_loop_reads_yield [OF yield(1-4)] eq list.set by blast
    next
      case (Suc k')
      then have eq: "i + Suc k * min_step = i + min_step + Suc k' * min_step" by simp
      then have "i + min_step + Suc k' * min_step \<le> pse" using k by simp
      then have m: "i + min_step + Suc k' * min_step \<in>
          set (divvy_loop_reads cds min_step max_size thr pse (i + min_step)
                 (min (i + min_step) pse) cd)"
        using yield.IH by blast
      show ?thesis unfolding divvy_loop_reads_yield [OF yield(1-4)] eq list.set
        using m by blast
    qed
  qed
next
  case (skip i last_end cdl cd)
  show ?case
  proof (intro allI impI)
    fix k assume k: "i + Suc k * min_step \<le> pse"
    show "i + Suc k * min_step \<in> set (divvy_loop_reads cds min_step max_size thr pse i last_end cdl)"
    proof (cases k)
      case 0
      then have eq: "i + Suc k * min_step = min (i + min_step) pse" using k by simp
      show ?thesis unfolding divvy_loop_reads_skip [OF skip(1-4)] eq list.set by blast
    next
      case (Suc k')
      then have eq: "i + Suc k * min_step = i + min_step + Suc k' * min_step" by simp
      then have "i + min_step + Suc k' * min_step \<le> pse" using k by simp
      then have m: "i + min_step + Suc k' * min_step \<in>
          set (divvy_loop_reads cds min_step max_size thr pse (i + min_step) last_end cdl)"
        using skip.IH by blast
      show ?thesis unfolding divvy_loop_reads_skip [OF skip(1-4)] eq list.set
        using m by blast
    qed
  qed
qed

lemma divvy_reads_run:
  assumes "np_index chunk 0 = Inr row0" and "np_argmax row0 = Inr c"
    and "np_index step_key c = Inr (min_step, max_size)"
    and "np_index (cumulative_diffs_of (class_column chunk c)) p = Inr cd0"
    and "0 < min_step"
  shows "divvy_reads chunk step_key p thr =
     p # divvy_loop_reads (cumulative_diffs_of (class_column chunk c))
           min_step max_size thr (length chunk - p) p p cd0"
  using assms by (simp add: divvy_reads_def Let_def)

text \<open>
  The generator ends in an error exactly when one of its reads of the running sum is out of
  range, and the error is then the \<open>IndexError\<close> of its last read.
\<close>

lemma divvy_loop_error_is_last_read:
  "snd (divvy_loop col cds c min_step max_size thr pse i last_end cdl) =
     (if \<forall>b \<in> set (divvy_loop_reads cds min_step max_size thr pse i last_end cdl).
           b < length cds
      then None
      else Some (IndexError (last (divvy_loop_reads cds min_step max_size thr pse i last_end cdl))))"
proof (induction i last_end cdl
    rule: divvy_loop_rule [where min_step = min_step and pse = pse and cds = cds
                             and thr = thr and max_size = max_size])
  case (stop i last_end cdl)
  then show ?case by (simp add: divvy_loop_stop divvy_loop_reads_stop)
next
  case (error i last_end cdl err)
  have "err = IndexError (min (i + min_step) pse)" "\<not> min (i + min_step) pse < length cds"
    using error(3) by (simp_all add: np_index_def split: if_splits)
  then show ?case
    unfolding divvy_loop_error [OF error] divvy_loop_reads_error [OF error] by simp
next
  case (yield i last_end cdl cd)
  let ?e = "min (i + min_step) pse"
  let ?rec = "divvy_loop_reads cds min_step max_size thr pse (i + min_step) ?e cd"
  have e: "?e < length cds" using np_index_InrD [OF yield(3)] by simp
  have s: "snd (divvy_loop col cds c min_step max_size thr pse i last_end cdl) =
      snd (divvy_loop col cds c min_step max_size thr pse (i + min_step) ?e cd)"
    unfolding divvy_loop_yield [OF yield(1-4)] by simp
  show ?case
  proof (cases "\<forall>b \<in> set ?rec. b < length cds")
    case True
    then show ?thesis
      unfolding s divvy_loop_reads_yield [OF yield(1-4)] yield.IH list.set using e by simp
  next
    case False
    then have ne: "?rec \<noteq> []" by auto
    show ?thesis
      unfolding s divvy_loop_reads_yield [OF yield(1-4)] yield.IH list.set
      using False ne by simp
  qed
next
  case (skip i last_end cdl cd)
  let ?e = "min (i + min_step) pse"
  let ?rec = "divvy_loop_reads cds min_step max_size thr pse (i + min_step) last_end cdl"
  have e: "?e < length cds" using np_index_InrD [OF skip(3)] by simp
  show ?case
  proof (cases "\<forall>b \<in> set ?rec. b < length cds")
    case True
    then show ?thesis
      unfolding divvy_loop_skip [OF skip(1-4)] divvy_loop_reads_skip [OF skip(1-4)]
        skip.IH list.set using e by simp
  next
    case False
    then have ne: "?rec \<noteq> []" by auto
    show ?thesis
      unfolding divvy_loop_skip [OF skip(1-4)] divvy_loop_reads_skip [OF skip(1-4)]
        skip.IH list.set
      using False ne by simp
  qed
qed

lemma divvy_error_is_last_read:
  assumes "np_index chunk 0 = Inr row0" and "np_argmax row0 = Inr c"
    and "np_index step_key c = Inr (min_step, max_size)" and "0 < min_step"
  shows "snd (divvy_by_confidence chunk step_key p thr) =
     (if \<forall>b \<in> set (divvy_reads chunk step_key p thr).
           b < length (cumulative_diffs_of (class_column chunk c))
      then None
      else Some (IndexError (last (divvy_reads chunk step_key p thr))))"
proof (cases "np_index (cumulative_diffs_of (class_column chunk c)) p")
  case (Inl err)
  then have "err = IndexError p" "\<not> p < length (cumulative_diffs_of (class_column chunk c))"
    by (simp_all add: np_index_def split: if_splits)
  then show ?thesis using assms Inl
    by (simp add: divvy_by_confidence_def divvy_reads_def Let_def)
next
  case (Inr cd0)
  have p: "p < length (cumulative_diffs_of (class_column chunk c))"
    using np_index_InrD [OF Inr] by simp
  show ?thesis
    unfolding divvy_by_confidence_run [OF assms(1-3) Inr assms(4)]
      divvy_reads_run [OF assms(1-3) Inr assms(4)] divvy_loop_error_is_last_read list.set
    using p by auto
qed

text \<open>
  With a padding of 0 or 1 the padded end \<open>n - pad\<close> is not an index of the running sum, so
  the generator always ends in an error, whatever the sub-region.
\<close>

lemma divvy_small_pad_raises:
  assumes "p \<le> 1"
  shows "snd (divvy_by_confidence chunk step_key p thr) \<noteq> None"
proof (cases "\<exists>row0 c min_step max_size cd0.
      np_index chunk 0 = Inr row0 \<and> np_argmax row0 = Inr c \<and>
      np_index step_key c = Inr (min_step, max_size) \<and>
      np_index (cumulative_diffs_of (class_column chunk c)) p = Inr cd0 \<and> 0 < min_step")
  case True
  then obtain row0 c min_step max_size cd0 where
    r: "np_index chunk 0 = Inr row0" "np_argmax row0 = Inr c"
       "np_index step_key c = Inr (min_step, max_size)"
       "np_index (cumulative_diffs_of (class_column chunk c)) p = Inr cd0" "0 < min_step"
    by blast
  let ?cds = "cumulative_diffs_of (class_column chunk c)"
  have len: "length ?cds = length chunk - 1"
    by (simp add: length_cumulative_diffs_of length_class_column)
  have p: "p < length chunk - 1" using np_index_InrD [OF r(4)] len by simp
  have 1: "length ?cds \<le> length chunk - p" using assms len by simp
  have 2: "p < length chunk - p" using p assms by simp
  show ?thesis
    unfolding divvy_by_confidence_run [OF r]
    by (rule divvy_loop_out_of_bounds [OF 1 2 r(5)])
next
  case False
  then show ?thesis
    by (auto simp: divvy_by_confidence_def Let_def split: sum.splits prod.splits)
qed

text \<open>
  Claim C10. The running sum of a sub-region of \<open>n\<close> rows has \<open>n - 1\<close> entries. For \<open>pad \<ge> 2\<close>
  and \<open>n \<ge> 2 * pad + 1\<close> (and a positive step for the main class) the divvier reads it first
  at \<open>pad\<close>, at every candidate boundary \<open>pad + j * min_step\<close> up to \<open>n - pad\<close>, and last at
  \<open>n - pad\<close>; every index it reads is in range and no read raises. For each \<open>pad \<le> 1\<close> there is
  a sub-region with at least \<open>pad + 1\<close> rows on which the divvier reads \<open>pad\<close> and then, in the
  loop, \<open>n - pad\<close>, which is out of range, and that read raises before any pre-hint is yielded.
\<close>

theorem cumulative_diffs_accesses:
  assumes "2 \<le> p" and "2 * p + 1 \<le> length chunk"
    and "np_argmax (chunk ! 0) = Inr c"
    and "np_index step_key c = Inr (min_step, max_size)"
    and "0 < min_step"
    and "q \<le> 1"
  shows "length (cumulative_diffs_of (class_column chunk c)) = length chunk - 1
    \<and> hd (divvy_reads chunk step_key p thr) = p
    \<and> last (divvy_reads chunk step_key p thr) = length chunk - p
    \<and> (\<forall>j. 0 < j \<and> p + j * min_step \<le> length chunk - p
           \<longrightarrow> p + j * min_step \<in> set (divvy_reads chunk step_key p thr))
    \<and> (\<forall>b \<in> set (divvy_reads chunk step_key p thr).
           p \<le> b \<and> b \<le> length chunk - p
           \<and> b < length (cumulative_diffs_of (class_column chunk c)))
    \<and> snd (divvy_by_confidence chunk step_key p thr) = None
    \<and> (\<exists>chunk' step_key' thr'. q + 1 \<le> length chunk'
          \<and> np_argmax (chunk' ! 0) = Inr 0
          \<and> divvy_reads chunk' step_key' q thr' = [q, length chunk' - q]
          \<and> \<not> length chunk' - q < length (cumulative_diffs_of (class_column chunk' 0))
          \<and> divvy_by_confidence chunk' step_key' q thr'
              = ([], Some (IndexError (length chunk' - q))))"
proof -
  let ?col = "class_column chunk c"
  let ?cds = "cumulative_diffs_of ?col"
  let ?pse = "length chunk - p"
  have len: "length ?cds = length chunk - 1"
    by (simp add: length_cumulative_diffs_of length_class_column)
  have row0: "np_index chunk 0 = Inr (chunk ! 0)" using assms(2) by (auto simp: np_index_def)
  have cd0: "np_index ?cds p = Inr (?cds ! p)" using assms(1,2) len by (simp add: np_index_def)
  have pse: "?pse < length ?cds" using assms(1,2) len by simp
  have lt: "p < ?pse" using assms(2) by simp
  let ?lr = "divvy_loop_reads ?cds min_step max_size thr ?pse p p (?cds ! p)"
  have reads: "divvy_reads chunk step_key p thr = p # ?lr"
    by (rule divvy_reads_run [OF row0 assms(3,4) cd0 assms(5)])
  have lr: "?lr \<noteq> []" "last ?lr = ?pse"
    using divvy_loop_reads_last [OF assms(5) pse lt, of max_size thr p "?cds ! p"] by simp_all
  have rng: "\<forall>b \<in> set ?lr. p < b \<and> b \<le> ?pse"
    by (rule divvy_loop_reads_range)
  have 1: "hd (divvy_reads chunk step_key p thr) = p" unfolding reads by simp
  have 2: "last (divvy_reads chunk step_key p thr) = ?pse" unfolding reads using lr by simp
  have 3: "\<forall>j. 0 < j \<and> p + j * min_step \<le> ?pse
           \<longrightarrow> p + j * min_step \<in> set (divvy_reads chunk step_key p thr)"
  proof (intro allI impI)
    fix j assume j: "0 < j \<and> p + j * min_step \<le> ?pse"
    then obtain k where k: "j = Suc k" by (cases j) simp_all
    have "p + Suc k * min_step \<in> set ?lr"
      using divvy_loop_reads_candidates [OF assms(5) pse, of p max_size thr p "?cds ! p"] j k
      by blast
    then show "p + j * min_step \<in> set (divvy_reads chunk step_key p thr)"
      unfolding reads k list.set by blast
  qed
  have 4: "\<forall>b \<in> set (divvy_reads chunk step_key p thr).
           p \<le> b \<and> b \<le> ?pse \<and> b < length ?cds"
  proof
    fix b assume "b \<in> set (divvy_reads chunk step_key p thr)"
    then have "b = p \<or> (p < b \<and> b \<le> ?pse)" unfolding reads list.set using rng by blast
    then show "p \<le> b \<and> b \<le> ?pse \<and> b < length ?cds" using lt pse by linarith
  qed
  have ok: "snd (divvy_by_confidence chunk step_key p thr) = None"
    unfolding divvy_by_confidence_run [OF row0 assms(3,4) cd0 assms(5)]
    using divvy_loop_complete [OF assms(5) pse] by blast
  have small: "\<exists>chunk' step_key' thr'. q + 1 \<le> length chunk'
          \<and> np_argmax (chunk' ! 0) = Inr 0
          \<and> divvy_reads chunk' step_key' q thr' = [q, length chunk' - q]
          \<and> \<not> length chunk' - q < length (cumulative_diffs_of (class_column chunk' 0))
          \<and> divvy_by_confidence chunk' step_key' q thr'
              = ([], Some (IndexError (length chunk' - q)))"
  proof (cases "q = 0")
    case True
    let ?c = "[[1, 0, 0, 0], [1::real, 0, 0, 0]]"
    let ?k = "[(2, 2), (2, 2), (2, 2), (2::nat, 2::int)]"
    have e: "divvy_by_confidence ?c ?k 0 (1 / 10) = ([], Some (IndexError 2))"
      by code_simp
    have r: "divvy_reads ?c ?k 0 (1 / 10) = [0, 2]"
      by code_simp
    have f1: "0 + 1 \<le> length ?c" by simp
    have f2: "np_argmax (?c ! 0) = Inr 0" by (simp add: np_argmax_def)
    have f3: "divvy_reads ?c ?k 0 (1 / 10) = [0, length ?c - 0]" unfolding r by simp
    have f4: "\<not> length ?c - 0 < length (cumulative_diffs_of (class_column ?c 0))"
      by (simp add: length_cumulative_diffs_of length_class_column)
    have f5: "divvy_by_confidence ?c ?k 0 (1 / 10) = ([], Some (IndexError (length ?c - 0)))"
      unfolding e by simp
    show ?thesis unfolding True using f1 f2 f3 f4 f5 by blast
  next
    case False
    then have q: "q = 1" using assms(6) by simp
    let ?c = "[[1, 0, 0, 0], [1, 0, 0, 0], [1::real, 0, 0, 0]]"
    let ?k = "[(1, 1), (1, 1), (1, 1), (1::nat, 1::int)]"
    have e: "divvy_by_confidence ?c ?k 1 (1 / 10) = ([], Some (IndexError 2))"
      by code_simp
    have r: "divvy_reads ?c ?k 1 (1 / 10) = [1, 2]"
      by code_simp
    have f1: "1 + 1 \<le> length ?c" by simp
    have f2: "np_argmax (?c ! 0) = Inr 0" by (simp add: np_argmax_def)
    have f3: "divvy_reads ?c ?k 1 (1 / 10) = [1, length ?c - 1]" unfolding r by simp
    have f4: "\<not> length ?c - 1 < length (cumulative_diffs_of (class_column ?c 0))"
      by (simp add: length_cumulative_diffs_of length_class_column)
    have f5: "divvy_by_confidence ?c ?k 1 (1 / 10) = ([], Some (IndexError (length ?c - 1)))"
      unfolding e by simp
    show ?thesis unfolding q using f1 f2 f3 f4 f5 by blast
  qed
  show ?thesis using len 1 2 3 4 ok small by blast
qed

theorem cumulative_diffs_accesses_witness:
  "(2::nat) \<le> 2
   \<and> 2 * 2 + 1 \<le> length [[1, 0, 0, 0], [1, 0, 0, 0], [1, 0, 0, 0], [1, 0, 0, 0],
                           [1, 0, 0, 0], [1, 0, 0, 0], [1::real, 0, 0, 0]]
   \<and> np_index [(1, 20), (1, 20), (1, 20), (1::nat, 20::int)] 0 = Inr (1, 20)
   \<and> (1::nat) \<le> 1
   \<and> divvy_reads
         [[1, 0, 0, 0], [1, 0, 0, 0], [1, 0, 0, 0], [1, 0, 0, 0], [1, 0, 0, 0], [1, 0, 0, 0],
          [1, 0, 0, 0]]
         [(1, 20), (1, 20), (1, 20), (1, 20)] 2 (1 / 10) = [2, 3, 4, 5, 5]
   \<and> 5 < length (cumulative_diffs_of (class_column
         [[1, 0, 0, 0], [1, 0, 0, 0], [1, 0, 0, 0], [1, 0, 0, 0], [1, 0, 0, 0], [1, 0, 0, 0],
          [1, 0, 0, 0]] 0))
   \<and> snd (divvy_by_confidence
         [[1, 0, 0, 0], [1, 0, 0, 0], [1, 0, 0, 0], [1, 0, 0, 0], [1, 0, 0, 0], [1, 0, 0, 0],
          [1, 0, 0, 0]]
         [(1, 20), (1, 20), (1, 20), (1, 20)] 2 (1 / 10)) = None
   \<and> (\<exists>chunk' step_key' thr'. 1 + 1 \<le> length chunk'
          \<and> np_argmax (chunk' ! 0) = Inr 0
          \<and> divvy_reads chunk' step_key' 1 thr' = [1, length chunk' - 1]
          \<and> \<not> length chunk' - 1 < length (cumulative_diffs_of (class_column chunk' 0))
          \<and> divvy_by_confidence chunk' step_key' 1 thr'
              = ([], Some (IndexError (length chunk' - 1))))"
proof -
  let ?chunk = "[[1, 0, 0, 0], [1, 0, 0, 0], [1, 0, 0, 0], [1, 0, 0, 0], [1, 0, 0, 0],
                 [1, 0, 0, 0], [1::real, 0, 0, 0]]"
  let ?key = "[(1, 20), (1, 20), (1, 20), (1::nat, 20::int)]"
  have h1: "(2::nat) \<le> 2" by simp
  have h2: "2 * 2 + 1 \<le> length ?chunk" by simp
  have h3: "np_argmax (?chunk ! 0) = Inr 0" by (simp add: np_argmax_def)
  have h4: "np_index ?key 0 = Inr (1, 20)" by (simp add: np_index_def)
  have h5: "(0::nat) < 1" by simp
  have h6: "(1::nat) \<le> 1" by simp
  have r: "divvy_reads ?chunk ?key 2 (1 / 10) = [2, 3, 4, 5, 5]" by code_simp
  note t = cumulative_diffs_accesses [OF h1 h2 h3 h4 h5 h6, of "1 / 10"]
  have "\<forall>b \<in> set (divvy_reads ?chunk ?key 2 (1 / 10)).
          b < length (cumulative_diffs_of (class_column ?chunk 0))"
    using t by blast
  then have a: "5 < length (cumulative_diffs_of (class_column ?chunk 0))"
    unfolding r by simp
  have b: "snd (divvy_by_confidence ?chunk ?key 2 (1 / 10)) = None"
    using t by blast
  have c: "\<exists>chunk' step_key' thr'. 1 + 1 \<le> length chunk'
          \<and> np_argmax (chunk' ! 0) = Inr 0
          \<and> divvy_reads chunk' step_key' 1 thr' = [1, length chunk' - 1]
          \<and> \<not> length chunk' - 1 < length (cumulative_diffs_of (class_column chunk' 0))
          \<and> divvy_by_confidence chunk' step_key' 1 thr'
              = ([], Some (IndexError (length chunk' - 1)))"
    using t by blast
  show ?thesis using h1 h2 h4 h6 r a b c by blast
qed

end
